theory Spec2Isabelle
  imports Main
begin

section \<open>Tasks (src/taskflow/task.py)\<close>

text \<open>
  \<^verbatim>\<open>TaskStatus\<close> is the enum of the source, constructor for constructor.
\<close>

datatype TaskStatus = PENDING | SCHEDULED | RUNNING | FAILED | COMPLETED | CANCELED

text \<open>
  What a call of the abstract work function \<^verbatim>\<open>execute()\<close>, or of a callback, can raise.
  \<^verbatim>\<open>execute_task\<close> catches with \<^verbatim>\<open>except Exception\<close>, so the model keeps the one
  distinction that clause makes: \<open>Exception m\<close> is an instance of (a subclass of)
  \<^verbatim>\<open>Exception\<close>; \<open>BaseException m\<close> is an instance of \<^verbatim>\<open>BaseException\<close> outside
  \<^verbatim>\<open>Exception\<close> (\<^verbatim>\<open>KeyboardInterrupt\<close>, \<^verbatim>\<open>SystemExit\<close>, \<^verbatim>\<open>GeneratorExit\<close>).
\<close>

datatype exn = Exception string | BaseException string

fun is_Exception :: "exn \<Rightarrow> bool" where
  "is_Exception (Exception m) = True"
| "is_Exception (BaseException m) = False"

text \<open>Values held by the result slot \<^verbatim>\<open>_task_result\<close>: \<^verbatim>\<open>None\<close>, a returned value, or
  the caught exception object.\<close>

datatype pyval = PyNone | PyInt int | PyStr string | PyExn exn

text \<open>
  A reference to a \<^verbatim>\<open>Task\<close> object. \<^verbatim>\<open>_task_id\<close> is written once in \<^verbatim>\<open>__init__\<close> and
  only read afterwards (by \<^verbatim>\<open>__eq__\<close>, \<^verbatim>\<open>__hash__\<close>, \<^verbatim>\<open>__repr__\<close>), so the reference
  carries it; \<open>oid\<close> is the object's identity. Two references with the same \<open>task_id\<close>
  and different \<open>oid\<close> are two distinct objects that Python's \<^verbatim>\<open>==\<close> identifies.
\<close>

datatype ref = Ref (task_id: string) (oid: nat)

text \<open>\<^verbatim>\<open>Task.__eq__\<close>: \<^verbatim>\<open>self._task_id == other._task_id\<close> (and \<^verbatim>\<open>__hash__\<close> hashes the
  same field, so sets and dicts of tasks identify tasks by identifier).\<close>

definition task_eq :: "ref \<Rightarrow> ref \<Rightarrow> bool" where
  "task_eq self other = (task_id self = task_id other)"

text \<open>
  The callables a callback slot can hold. The three \<open>Handler\<close> constructors are the bound
  methods \<^verbatim>\<open>__on_task_completed\<close>, \<^verbatim>\<open>__on_task_failed\<close>, \<^verbatim>\<open>__on_task_canceled\<close> of the
  scheduler, which \<^verbatim>\<open>schedule\<close> registers. \<open>External r\<close> is a callable registered by
  other code through the public \<^verbatim>\<open>register_on_task_*\<close> setters, known only by how it
  ends: it returns (\<open>None\<close>) or raises (\<open>Some e\<close>).
\<close>

datatype callback =
    Handler_completed
  | Handler_failed
  | Handler_canceled
  | External "exn option"

text \<open>The mutable fields of a \<^verbatim>\<open>Task\<close>, and the frozen dependency set. A Python set of
  tasks is modelled as the list of its elements in iteration order.\<close>

record Task =
  dependencies :: "ref list"
  task_status :: TaskStatus
  on_task_completed :: "callback option"
  on_task_canceled :: "callback option"
  on_task_failed :: "callback option"
  canceled_event :: bool
  task_result :: pyval

subsection \<open>Sets of tasks\<close>

text \<open>\<^verbatim>\<open>x in s\<close> and \<^verbatim>\<open>s.add(x)\<close> for a set of tasks: membership is decided by \<open>task_eq\<close>,
  and adding an element equal to one already present changes nothing.\<close>

definition set_contains :: "ref list \<Rightarrow> ref \<Rightarrow> bool" where
  "set_contains s x = list_ex (\<lambda>y. task_eq y x) s"

definition set_add :: "ref list \<Rightarrow> ref \<Rightarrow> ref list" where
  "set_add s x = (if set_contains s x then s else s @ [x])"

text \<open>The constructors \<^verbatim>\<open>set(xs)\<close> and \<^verbatim>\<open>frozenset(xs)\<close>: the elements of \<open>xs\<close>, equal ones
  once.\<close>

definition py_set :: "ref list \<Rightarrow> ref list" where
  "py_set xs = foldl set_add [] xs"

text \<open>\<^verbatim>\<open>Task.__init__\<close> (the identifier lives in the reference).\<close>

definition Task_init :: "ref list \<Rightarrow> Task" where
  "Task_init deps =
     \<lparr> dependencies = py_set deps,
       task_status = PENDING,
       on_task_completed = None,
       on_task_canceled = None,
       on_task_failed = None,
       canceled_event = False,
       task_result = PyNone \<rparr>"

subsection \<open>Operations on one task\<close>

text \<open>\<^verbatim>\<open>cancel\<close>: \<^verbatim>\<open>self.__canceled_event.set()\<close>.\<close>

definition cancel :: "Task \<Rightarrow> Task" where
  "cancel self = self\<lparr>canceled_event := True\<rparr>"

text \<open>\<^verbatim>\<open>mark_as_scheduled\<close>: \<^verbatim>\<open>self.__task_status = TaskStatus.SCHEDULED\<close>.\<close>

definition mark_as_scheduled :: "Task \<Rightarrow> Task" where
  "mark_as_scheduled self = self\<lparr>task_status := SCHEDULED\<rparr>"

definition register_on_task_completed :: "Task \<Rightarrow> callback \<Rightarrow> Task" where
  "register_on_task_completed self func = self\<lparr>on_task_completed := Some func\<rparr>"

definition register_on_task_failed :: "Task \<Rightarrow> callback \<Rightarrow> Task" where
  "register_on_task_failed self func = self\<lparr>on_task_failed := Some func\<rparr>"

definition register_on_task_canceled :: "Task \<Rightarrow> callback \<Rightarrow> Task" where
  "register_on_task_canceled self func = self\<lparr>on_task_canceled := Some func\<rparr>"

section \<open>The scheduler (src/taskflow/scheduler.py)\<close>

text \<open>The exceptions of the scheduler's own code: \<^verbatim>\<open>SchedulingException\<close>, and the
  \<^verbatim>\<open>KeyError\<close> of a plain \<^verbatim>\<open>dict\<close> read at a missing key.\<close>

datatype error = SchedulingException | KeyError

subsection \<open>Dictionaries keyed by tasks\<close>

text \<open>
  A Python \<^verbatim>\<open>dict\<close> keeps its entries in insertion order and finds a key by
  \<^verbatim>\<open>__hash__\<close>/\<^verbatim>\<open>__eq__\<close>, here by task identifier. It is an association list; the
  key stored in an entry is the object that was inserted first.
\<close>

type_synonym 'v task_dict = "(ref \<times> 'v) list"

fun dict_get :: "'v task_dict \<Rightarrow> ref \<Rightarrow> 'v option" where
  "dict_get [] k = None"
| "dict_get ((k', v) # d) k = (if task_eq k' k then Some v else dict_get d k)"

text \<open>\<^verbatim>\<open>k in d\<close>.\<close>

definition dict_contains :: "'v task_dict \<Rightarrow> ref \<Rightarrow> bool" where
  "dict_contains d k = (dict_get d k \<noteq> None)"

text \<open>\<^verbatim>\<open>d[k] = v\<close>: an existing entry keeps its key object and its place; a new entry goes
  last.\<close>

fun dict_set :: "'v task_dict \<Rightarrow> ref \<Rightarrow> 'v \<Rightarrow> 'v task_dict" where
  "dict_set [] k v = [(k, v)]"
| "dict_set ((k', v') # d) k v =
     (if task_eq k' k then (k', v) # d else (k', v') # dict_set d k v)"

text \<open>\<^verbatim>\<open>d[k]\<close> on a \<^verbatim>\<open>defaultdict(set)\<close>: a missing key is inserted with an empty set,
  so the read returns the value and the dictionary after the read.\<close>

definition defaultdict_get :: "(ref list) task_dict \<Rightarrow> ref \<Rightarrow> ref list \<times> (ref list) task_dict" where
  "defaultdict_get d k =
     (case dict_get d k of
        Some v \<Rightarrow> (v, d)
      | None \<Rightarrow> ([], d @ [(k, [])]))"

subsection \<open>State\<close>

record Scheduler =
  task_to_dependencies :: "(ref list) task_dict"
  task_to_dependents :: "(ref list) task_dict"

text \<open>
  Observable calls, in the order they happen: an invocation of a task's work function
  \<^verbatim>\<open>execute()\<close>, and an invocation of the callable held in one of its three callback
  slots.
\<close>

datatype call = Work_function ref | On_completed ref | On_failed ref | On_canceled ref

text \<open>
  The world: the task objects (every reference denotes an object), the one scheduler, and
  the calls made so far. The \<^verbatim>\<open>Condition\<close> of the scheduler has no state of its own in a
  single thread of control: \<^verbatim>\<open>notifyAll\<close> changes nothing, and \<^verbatim>\<open>wait\<close> is the result
  \<open>Blocked\<close> below.
\<close>

record world =
  heap :: "ref \<Rightarrow> Task"
  sched :: Scheduler
  calls :: "call list"

definition set_status :: "world \<Rightarrow> ref \<Rightarrow> TaskStatus \<Rightarrow> world" where
  "set_status w r s = w\<lparr>heap := (heap w)(r := (heap w r)\<lparr>task_status := s\<rparr>)\<rparr>"

definition set_result :: "world \<Rightarrow> ref \<Rightarrow> pyval \<Rightarrow> world" where
  "set_result w r v = w\<lparr>heap := (heap w)(r := (heap w r)\<lparr>task_result := v\<rparr>)\<rparr>"

definition record_call :: "call \<Rightarrow> world \<Rightarrow> world" where
  "record_call c w = w\<lparr>calls := calls w @ [c]\<rparr>"

subsection \<open>schedule\<close>

text \<open>\<^verbatim>\<open>self.__task_to_dependents[dependency].add(task)\<close>.\<close>

definition add_dependent :: "(ref list) task_dict \<Rightarrow> ref \<Rightarrow> ref \<Rightarrow> (ref list) task_dict" where
  "add_dependent dd dependency task =
     (case defaultdict_get dd dependency of
        (v, dd') \<Rightarrow> dict_set dd' dependency (set_add v task))"

text \<open>
  \<^verbatim>\<open>schedule\<close> returns the exception it raises, if any, and the world it leaves.
\<close>

definition schedule :: "world \<Rightarrow> ref \<Rightarrow> error option \<times> world" where
  "schedule w task =
     (if dict_contains (task_to_dependencies (sched w)) task then (Some SchedulingException, w)
      else
        let t1 = register_on_task_completed (heap w task) Handler_completed;
            t2 = register_on_task_failed t1 Handler_failed;
            t3 = register_on_task_canceled t2 Handler_canceled;
            deps = dependencies t3;
            s = sched w;
            s1 = s\<lparr>task_to_dependencies := dict_set (task_to_dependencies s) task (py_set deps)\<rparr>;
            s2 = s1\<lparr>task_to_dependents :=
                      foldl (\<lambda>dd dependency. add_dependent dd dependency task)
                        (task_to_dependents s1) deps\<rparr>
        in (None, w\<lparr>heap := (heap w)(task := t3), sched := s2\<rparr>))"

text \<open>\<^verbatim>\<open>Scheduler.__init__\<close>: empty mappings, then \<^verbatim>\<open>schedule\<close> for each given task, in the
  iteration order of the given set; the first exception ends the construction.\<close>

fun schedule_all :: "world \<Rightarrow> ref list \<Rightarrow> error option \<times> world" where
  "schedule_all w [] = (None, w)"
| "schedule_all w (task # tasks) =
     (case schedule w task of
        (Some e, w') \<Rightarrow> (Some e, w')
      | (None, w') \<Rightarrow> schedule_all w' tasks)"

definition Scheduler_init :: "world \<Rightarrow> ref list \<Rightarrow> error option \<times> world" where
  "Scheduler_init w tasks =
     schedule_all (w\<lparr>sched := \<lparr>task_to_dependencies = [], task_to_dependents = []\<rparr>\<rparr>) tasks"

subsection \<open>Lifecycle handlers\<close>

text \<open>\<^verbatim>\<open>for dependents in ...: dependents.cancel()\<close>.\<close>

definition cancel_all :: "(ref \<Rightarrow> Task) \<Rightarrow> ref list \<Rightarrow> (ref \<Rightarrow> Task)" where
  "cancel_all h ds = foldl (\<lambda>h' d. h'(d := cancel (h' d))) h ds"

definition Scheduler_on_task_completed :: "world \<Rightarrow> ref \<Rightarrow> world" where
  "Scheduler_on_task_completed w task = w"

definition Scheduler_on_task_failed :: "world \<Rightarrow> ref \<Rightarrow> world" where
  "Scheduler_on_task_failed w task =
     (case defaultdict_get (task_to_dependents (sched w)) task of
        (dependents, dd) \<Rightarrow>
          w\<lparr>heap := cancel_all (heap w) dependents,
            sched := (sched w)\<lparr>task_to_dependents := dd\<rparr>\<rparr>)"

definition Scheduler_on_task_canceled :: "world \<Rightarrow> ref \<Rightarrow> world" where
  "Scheduler_on_task_canceled w task =
     (case defaultdict_get (task_to_dependents (sched w)) task of
        (dependents, dd) \<Rightarrow>
          w\<lparr>heap := cancel_all (heap w) dependents,
            sched := (sched w)\<lparr>task_to_dependents := dd\<rparr>\<rparr>)"

text \<open>Calling the callable of a callback slot with the task: what it raises, if
  anything, and the world it leaves.\<close>

fun call_callback :: "callback \<Rightarrow> world \<Rightarrow> ref \<Rightarrow> exn option \<times> world" where
  "call_callback Handler_completed w task = (None, Scheduler_on_task_completed w task)"
| "call_callback Handler_failed w task = (None, Scheduler_on_task_failed w task)"
| "call_callback Handler_canceled w task = (None, Scheduler_on_task_canceled w task)"
| "call_callback (External r) w task = (r, w)"

subsection \<open>execute\_task\<close>

text \<open>
  The work function \<^verbatim>\<open>execute()\<close> is abstract in the source and a black box here: a
  call of it either returns a value or raises, and that outcome is an input of
  \<open>execute_task\<close>.
\<close>

datatype outcome = Returns pyval | Raises exn

text \<open>The \<^verbatim>\<open>except Exception as exception\<close> clause of \<^verbatim>\<open>execute_task\<close>, entered with
  an exception raised inside the \<^verbatim>\<open>try\<close> block; an exception outside \<^verbatim>\<open>Exception\<close>
  is not caught and leaves \<^verbatim>\<open>execute_task\<close>.\<close>

definition except_clause :: "world \<Rightarrow> ref \<Rightarrow> exn \<Rightarrow> exn option \<times> world" where
  "except_clause w self exception =
     (if is_Exception exception then
        let w1 = set_result w self (PyExn exception);
            w2 = set_status w1 self FAILED
        in (case on_task_failed (heap w2 self) of
              None \<Rightarrow> (None, w2)
            | Some f \<Rightarrow> call_callback f (record_call (On_failed self) w2) self)
      else (Some exception, w))"

text \<open>\<^verbatim>\<open>execute_task\<close>: the exception that leaves it, if any, and the world it leaves.\<close>

definition execute_task :: "world \<Rightarrow> ref \<Rightarrow> outcome \<Rightarrow> exn option \<times> world" where
  "execute_task w self outcome =
     (if canceled_event (heap w self) then
        let w1 = set_status w self CANCELED
        in (case on_task_canceled (heap w1 self) of
              None \<Rightarrow> (None, w1)
            | Some f \<Rightarrow> call_callback f (record_call (On_canceled self) w1) self)
      else
        let w1 = set_status w self RUNNING;
            w2 = record_call (Work_function self) w1
        in (case outcome of
              Raises exception \<Rightarrow> except_clause w2 self exception
            | Returns v \<Rightarrow>
                let w3 = set_result w2 self v;
                    w4 = set_status w3 self COMPLETED
                in (case on_task_completed (heap w4 self) of
                      None \<Rightarrow> (None, w4)
                    | Some f \<Rightarrow>
                        (case call_callback f (record_call (On_completed self) w4) self of
                           (None, w5) \<Rightarrow> (None, w5)
                         | (Some exception, w5) \<Rightarrow> except_clause w5 self exception))))"

subsection \<open>Cycle detection\<close>

text \<open>
  The inner \<^verbatim>\<open>for dependent in ...\<close> loop of \<^verbatim>\<open>__has_cycles\<close>. \<^verbatim>\<open>out_degree\<close> is a plain
  \<^verbatim>\<open>dict\<close>: \<^verbatim>\<open>out_degree[dependent] -= 1\<close> raises \<^verbatim>\<open>KeyError\<close> at a missing key.
\<close>

fun relax :: "ref list \<Rightarrow> int task_dict \<Rightarrow> ref list \<Rightarrow> error + (int task_dict \<times> ref list)" where
  "relax [] out_degree ready_queue = Inr (out_degree, ready_queue)"
| "relax (dependent # rest) out_degree ready_queue =
     (case dict_get out_degree dependent of
        None \<Rightarrow> Inl KeyError
      | Some n \<Rightarrow>
          relax rest (dict_set out_degree dependent (n - 1))
            (if n - 1 = 0 then ready_queue @ [dependent] else ready_queue))"

text \<open>The number of entries of \<^verbatim>\<open>out_degree\<close> that are still positive; with the length
  of the queue it bounds the \<^verbatim>\<open>while ready_queue\<close> loop.\<close>

definition positive :: "int task_dict \<Rightarrow> nat" where
  "positive out_degree = length (filter (\<lambda>(k, n). 0 < n) out_degree)"

lemma positive_dict_set:
  "dict_get od k = Some n \<Longrightarrow>
   positive (dict_set od k (n - 1)) + (if n - 1 = 0 then 1 else 0) \<le> positive od"
  by (induction od) (auto simp: positive_def split: if_splits)

lemma relax_measure:
  "relax ds od q = Inr (od', q') \<Longrightarrow> length q' + positive od' \<le> length q + positive od"
proof (induction ds arbitrary: od q)
  case Nil
  then show ?case by simp
next
  case (Cons d ds)
  from Cons.prems obtain n where n: "dict_get od d = Some n"
    by (auto split: option.splits)
  let ?od = "dict_set od d (n - 1)"
  let ?q = "if n - 1 = 0 then q @ [d] else q"
  from Cons.prems n have "relax ds ?od ?q = Inr (od', q')" by simp
  from Cons.IH[OF this] have "length q' + positive od' \<le> length ?q + positive ?od" .
  also have "\<dots> \<le> length q + positive od"
    using positive_dict_set[OF n] by (auto split: if_splits)
  finally show ?case .
qed

text \<open>The \<^verbatim>\<open>while ready_queue\<close> loop: the result is \<^verbatim>\<open>processed_count\<close>, or the
  exception that ends the loop, with \<^verbatim>\<open>__task_to_dependents\<close> as the reads leave it.\<close>

function kahn :: "int task_dict \<Rightarrow> ref list \<Rightarrow> nat \<Rightarrow> (ref list) task_dict
    \<Rightarrow> (error + nat) \<times> (ref list) task_dict" where
  "kahn out_degree [] processed_count dd = (Inr processed_count, dd)"
| "kahn out_degree (task # ready_queue) processed_count dd =
     (case defaultdict_get dd task of
        (dependents, dd') \<Rightarrow>
          (case relax dependents out_degree ready_queue of
             Inl e \<Rightarrow> (Inl e, dd')
           | Inr (out_degree', ready_queue') \<Rightarrow>
               kahn out_degree' ready_queue' (processed_count + 1) dd'))"
  by pat_completeness auto
termination
proof (relation "measure (\<lambda>(od, q, n, dd). length q + positive od)")
  show "wf (measure (\<lambda>(od, q, n, dd). length q + positive od))"
    by simp
next
  fix out_degree :: "int task_dict" and task :: ref and ready_queue :: "ref list"
    and processed_count :: nat and dd dd' :: "(ref list) task_dict"
    and x :: "ref list \<times> (ref list) task_dict" and dependents :: "ref list"
    and x2 :: "int task_dict \<times> ref list" and out_degree' :: "int task_dict"
    and ready_queue' :: "ref list"
  assume "relax dependents out_degree ready_queue = Inr x2" "(out_degree', ready_queue') = x2"
  then have "relax dependents out_degree ready_queue = Inr (out_degree', ready_queue')"
    by simp
  from relax_measure[OF this]
  show "((out_degree', ready_queue', processed_count + 1, dd'),
         (out_degree, task # ready_queue, processed_count, dd))
        \<in> measure (\<lambda>(od, q, n, dd). length q + positive od)"
    by simp
qed

text \<open>\<^verbatim>\<open>__has_cycles\<close>: its result or exception, and the scheduler it leaves.\<close>

definition has_cycles :: "Scheduler \<Rightarrow> (error + bool) \<times> Scheduler" where
  "has_cycles s =
     (let out_degree = map (\<lambda>(task, dependencies). (task, int (length dependencies)))
                         (task_to_dependencies s);
          ready_queue = map fst (filter (\<lambda>(task, degree). degree = 0) out_degree)
      in (case kahn out_degree ready_queue 0 (task_to_dependents s) of
            (Inl e, dd) \<Rightarrow> (Inl e, s\<lparr>task_to_dependents := dd\<rparr>)
          | (Inr processed_count, dd) \<Rightarrow>
              (Inr (processed_count \<noteq> length (task_to_dependencies s)),
               s\<lparr>task_to_dependents := dd\<rparr>)))"

subsection \<open>ready\_tasks\<close>

text \<open>
  \<^verbatim>\<open>ready_tasks\<close> is a generator. Reading the property runs none of its body and gives
  a generator in state \<open>Created\<close>. Each advance (\<^verbatim>\<open>next\<close>) runs the body up to the next
  \<^verbatim>\<open>yield\<close> (\<open>Yielded\<close>, the generator stays \<open>Suspended\<close> there), to its \<^verbatim>\<open>return\<close>
  (\<open>StopIteration\<close>), or to an exception (\<open>Raised\<close>). When the body reaches
  \<^verbatim>\<open>self.__condition.wait()\<close> the advance does not return until another thread notifies:
  that is the result \<open>Blocked\<close>, and the generator is \<open>Waiting\<close> inside the loop, which it
  re-enters from its top when woken.
\<close>

datatype gen_state = Created | Suspended | Waiting | Finished

datatype step = Yielded ref | StopIteration | Raised error | Blocked

definition has_pending_tasks :: "world \<Rightarrow> bool" where
  "has_pending_tasks w =
     list_ex (\<lambda>task. task_status (heap w task) = PENDING)
       (map fst (task_to_dependencies (sched w)))"

definition all_deps_completed :: "world \<Rightarrow> ref list \<Rightarrow> bool" where
  "all_deps_completed w deps =
     list_all (\<lambda>dep. task_status (heap w dep) \<noteq> RUNNING
                    \<and> task_status (heap w dep) \<noteq> PENDING
                    \<and> task_status (heap w dep) \<noteq> SCHEDULED) deps"

text \<open>The \<^verbatim>\<open>for task, dependencies in ...items()\<close> scan with its \<^verbatim>\<open>continue\<close> and
  \<^verbatim>\<open>break\<close>.\<close>

fun find_ready :: "world \<Rightarrow> (ref list) task_dict \<Rightarrow> ref option" where
  "find_ready w [] = None"
| "find_ready w ((task, deps) # items) =
     (if task_status (heap w task) \<noteq> PENDING then find_ready w items
      else if all_deps_completed w deps then Some task
      else find_ready w items)"

text \<open>One iteration of \<^verbatim>\<open>while True\<close>, up to the point where the advance ends.\<close>

definition ready_loop :: "world \<Rightarrow> step \<times> gen_state \<times> world" where
  "ready_loop w =
     (if \<not> has_pending_tasks w then (StopIteration, Finished, w)
      else
        (case find_ready w (task_to_dependencies (sched w)) of
           Some ready_task \<Rightarrow>
             (Yielded ready_task, Suspended,
              w\<lparr>heap := (heap w)(ready_task := mark_as_scheduled (heap w ready_task))\<rparr>)
         | None \<Rightarrow> (Blocked, Waiting, w)))"

text \<open>Advancing the generator of \<^verbatim>\<open>ready_tasks\<close>.\<close>

definition ready_tasks_next :: "gen_state \<Rightarrow> world \<Rightarrow> step \<times> gen_state \<times> world" where
  "ready_tasks_next g w =
     (case g of
        Created \<Rightarrow>
          (case has_cycles (sched w) of
             (Inl e, s') \<Rightarrow> (Raised e, Finished, w\<lparr>sched := s'\<rparr>)
           | (Inr True, s') \<Rightarrow> (Raised SchedulingException, Finished, w\<lparr>sched := s'\<rparr>)
           | (Inr False, s') \<Rightarrow> ready_loop (w\<lparr>sched := s'\<rparr>))
      | Suspended \<Rightarrow> ready_loop w
      | Waiting \<Rightarrow> ready_loop w
      | Finished \<Rightarrow> (StopIteration, Finished, w))"

section \<open>Example worlds\<close>

text \<open>A world with the given task objects and a scheduler just constructed.\<close>

definition fresh_world :: "(ref \<Rightarrow> Task) \<Rightarrow> world" where
  "fresh_world h =
     \<lparr>heap = h, sched = \<lparr>task_to_dependencies = [], task_to_dependents = []\<rparr>, calls = []\<rparr>"

text \<open>Three tasks: \<open>A\<close> without dependencies, \<open>B\<close> depending on \<open>A\<close>, \<open>C\<close> depending on
  \<open>B\<close>; all three scheduled.\<close>

definition task_A :: ref where "task_A = Ref ''A'' 0"
definition task_B :: ref where "task_B = Ref ''B'' 1"
definition task_C :: ref where "task_C = Ref ''C'' 2"

definition chain_heap :: "ref \<Rightarrow> Task" where
  "chain_heap = (\<lambda>_. Task_init [])(task_B := Task_init [task_A], task_C := Task_init [task_B])"

definition chain_world :: world where
  "chain_world = snd (schedule_all (fresh_world chain_heap) [task_A, task_B, task_C])"

text \<open>The generator advanced once (it yields \<open>A\<close>), and then \<open>A\<close> executed: successfully,
  or with its work function raising.\<close>

definition chain_world_started :: world where
  "chain_world_started = snd (snd (ready_tasks_next Created chain_world))"

definition chain_world_A_done :: world where
  "chain_world_A_done = snd (execute_task chain_world_started task_A (Returns (PyInt 1)))"

definition chain_world_A_failed :: world where
  "chain_world_A_failed =
     snd (execute_task chain_world_started task_A (Raises (Exception ''boom'')))"

text \<open>After \<open>A\<close> failed the generator is advanced again (it yields \<open>B\<close>).\<close>

definition chain_world_B_yielded :: world where
  "chain_world_B_yielded = snd (snd (ready_tasks_next Suspended chain_world_A_failed))"

text \<open>A scheduler with the single task \<open>A\<close>, yielded and executed successfully.\<close>

definition solo_world_done :: world where
  "solo_world_done =
     snd (execute_task
            (snd (snd (ready_tasks_next Created (snd (schedule (fresh_world chain_heap) task_A)))))
            task_A (Returns PyNone))"

text \<open>
  A cycle. Dependencies are frozen when a task is constructed, so two task objects can
  only depend on each other through an identifier: \<open>loop_B\<close> was constructed with a
  dependency on an object with identifier \<open>A\<close> (\<open>loop_A_alias\<close>), and \<open>loop_A\<close>, a second
  object with that identifier, depends on \<open>loop_B\<close>. \<open>task_T\<close> has no dependencies.
\<close>

definition task_T :: ref where "task_T = Ref ''T'' 6"
definition loop_A_alias :: ref where "loop_A_alias = Ref ''A'' 7"
definition loop_B :: ref where "loop_B = Ref ''B'' 8"
definition loop_A :: ref where "loop_A = Ref ''A'' 9"

definition loop_heap :: "ref \<Rightarrow> Task" where
  "loop_heap =
     (\<lambda>_. Task_init [])(loop_B := Task_init [loop_A_alias], loop_A := Task_init [loop_B])"

text \<open>Both tasks of the cycle scheduled before \<^verbatim>\<open>ready_tasks\<close> is read.\<close>

definition cycle_world :: world where
  "cycle_world = snd (schedule_all (fresh_world loop_heap) [loop_A, loop_B])"

text \<open>Only \<open>task_T\<close> scheduled; the generator advanced once (it yields \<open>task_T\<close>); then the
  two tasks of the cycle scheduled, while the generator is suspended.\<close>

definition late_world_0 :: world where
  "late_world_0 = snd (schedule (fresh_world loop_heap) task_T)"

definition late_world_1 :: world where
  "late_world_1 = snd (snd (ready_tasks_next Created late_world_0))"

definition late_world_2 :: world where
  "late_world_2 = snd (schedule_all late_world_1 [loop_A, loop_B])"

text \<open>\<open>B\<close> scheduled, its dependency \<open>A\<close> never scheduled.\<close>

definition orphan_world :: world where
  "orphan_world = snd (schedule (fresh_world chain_heap) task_B)"

section \<open>Notions used in the properties\<close>

text \<open>A registered task is ready when it is Pending and each of its dependencies is
  Completed, Failed or Canceled.\<close>

definition ready :: "world \<Rightarrow> ref \<Rightarrow> ref list \<Rightarrow> bool" where
  "ready w t deps =
     (task_status (heap w t) = PENDING
      \<and> list_all (\<lambda>d. task_status (heap w d) \<in> {COMPLETED, FAILED, CANCELED}) deps)"

text \<open>What a call of a callable raises: the scheduler's handlers raise nothing.\<close>

fun callback_raises :: "callback \<Rightarrow> exn option" where
  "callback_raises (External r) = r"
| "callback_raises f = None"

text \<open>The calls recorded when a callback slot is fired, and what firing it raises: nothing
  is called when the slot is empty.\<close>

definition fired :: "callback option \<Rightarrow> call \<Rightarrow> call list" where
  "fired slot c = (case slot of None \<Rightarrow> [] | Some f \<Rightarrow> [c])"

definition slot_raises :: "callback option \<Rightarrow> exn option" where
  "slot_raises slot = (case slot of None \<Rightarrow> None | Some f \<Rightarrow> callback_raises f)"

text \<open>Firing a slot: \<^verbatim>\<open>if self.__on_x: self.__on_x(self)\<close>.\<close>

definition fire :: "callback option \<Rightarrow> call \<Rightarrow> world \<Rightarrow> ref \<Rightarrow> exn option \<times> world" where
  "fire slot c w self =
     (case slot of None \<Rightarrow> (None, w) | Some f \<Rightarrow> call_callback f (record_call c w) self)"

text \<open>An exception raised by the on-completed callback is caught by \<^verbatim>\<open>except Exception\<close>
  when it is an \<^verbatim>\<open>Exception\<close>.\<close>

fun caught :: "exn option \<Rightarrow> bool" where
  "caught None = False"
| "caught (Some x) = is_Exception x"

text \<open>
  The transitions of the specification's state machine, after its words:
  Pending \<open>\<rightarrow>\<close> Scheduled \<open>\<rightarrow>\<close> Running \<open>\<rightarrow>\<close> \{Completed, Failed\}, and Canceled from Pending
  or Scheduled.
\<close>

fun spec_transition :: "TaskStatus \<Rightarrow> TaskStatus \<Rightarrow> bool" where
  "spec_transition PENDING SCHEDULED = True"
| "spec_transition SCHEDULED RUNNING = True"
| "spec_transition RUNNING COMPLETED = True"
| "spec_transition RUNNING FAILED = True"
| "spec_transition PENDING CANCELED = True"
| "spec_transition SCHEDULED CANCELED = True"
| "spec_transition a b = False"


text \<open>The identifiers of the keys of a dictionary, the dictionary as a map from
  identifiers, and the read of a \<^verbatim>\<open>defaultdict(set)\<close> as a total function.\<close>

definition keys :: "'v task_dict \<Rightarrow> string list" where
  "keys d = map (\<lambda>(k, v). task_id k) d"

definition amap :: "'v task_dict \<Rightarrow> string \<Rightarrow> 'v option" where
  "amap d = map_of (map (\<lambda>(k, v). (task_id k, v)) d)"

definition lookup :: "(ref list) task_dict \<Rightarrow> string \<Rightarrow> ref list" where
  "lookup d i = (case amap d i of None \<Rightarrow> [] | Some v \<Rightarrow> v)"

text \<open>\<open>depends_on D t d\<close>: \<open>t\<close> is registered and \<open>d\<close> is, by identifier, one of its recorded
  dependencies.\<close>

definition depends_on :: "(ref list) task_dict \<Rightarrow> ref \<Rightarrow> ref \<Rightarrow> bool" where
  "depends_on D t d = (case dict_get D t of None \<Rightarrow> False | Some deps \<Rightarrow> set_contains deps d)"

text \<open>
  What \<^verbatim>\<open>schedule\<close> maintains: no two keys of \<open>task_to_dependencies\<close> share an
  identifier, and every set of dependents holds each task once and holds only
  registered tasks that have the key among their dependencies.
\<close>

definition sched_inv :: "Scheduler \<Rightarrow> bool" where
  "sched_inv s \<longleftrightarrow>
     distinct (keys (task_to_dependencies s))
   \<and> list_all (\<lambda>(d, ts). distinct (map task_id ts)
                  \<and> list_all (\<lambda>t. depends_on (task_to_dependencies s) t d) ts)
        (task_to_dependents s)"

text \<open>A cycle among registered tasks: a non-empty list of tasks, each depending on the
  next one and the last one on the first.\<close>

fun chain :: "(ref list) task_dict \<Rightarrow> ref list \<Rightarrow> bool" where
  "chain D (x # y # r) = (depends_on D x y \<and> chain D (y # r))"
| "chain D r = True"

definition is_cycle :: "(ref list) task_dict \<Rightarrow> ref list \<Rightarrow> bool" where
  "is_cycle D c = (c \<noteq> [] \<and> chain D (c @ [hd c]))"

text \<open>The identifiers of the recorded dependencies of the task with identifier \<open>i\<close>.\<close>

definition deps_of :: "(ref list) task_dict \<Rightarrow> string \<Rightarrow> string set" where
  "deps_of D i = (case amap D i of None \<Rightarrow> {} | Some deps \<Rightarrow> task_id ` set deps)"

text \<open>What the loop relies on in the two mappings.\<close>

definition graph_ok :: "(ref list) task_dict \<Rightarrow> (ref list) task_dict \<Rightarrow> bool" where
  "graph_ok D R \<longleftrightarrow>
     distinct (keys D)
   \<and> (\<forall>i. distinct (map task_id (lookup R i)))
   \<and> (\<forall>i. \<forall>t \<in> set (lookup R i). task_id t \<in> set (keys D) \<and> i \<in> deps_of D (task_id t))"

text \<open>A set of registered tasks each of which has a dependency in the set or an
  unregistered dependency: none of them can ever be processed.\<close>

definition stuck :: "(ref list) task_dict \<Rightarrow> string set \<Rightarrow> bool" where
  "stuck D S \<longleftrightarrow>
     S \<subseteq> set (keys D) \<and> (\<forall>i \<in> S. \<exists>j \<in> deps_of D i. j \<in> S \<or> j \<notin> set (keys D))"

text \<open>
  The invariant, with \<open>P\<close> the identifiers of the tasks processed so far: an entry of
  \<open>out_degree\<close> is at least the number of dependencies of its task outside \<open>P\<close>; queued
  and processed tasks have entry 0; no task is queued twice or after being processed;
  \<open>processed_count\<close> is the size of \<open>P\<close>; and no task of the stuck set \<open>S\<close> is processed.
\<close>

definition kinv :: "(ref list) task_dict \<Rightarrow> (ref list) task_dict \<Rightarrow> string set
    \<Rightarrow> int task_dict \<Rightarrow> ref list \<Rightarrow> nat \<Rightarrow> (ref list) task_dict \<Rightarrow> string set \<Rightarrow> bool" where
  "kinv D R S od q n dd P \<longleftrightarrow>
     keys od = keys D
   \<and> (\<forall>i \<in> set (keys D). \<exists>m. amap od i = Some m \<and> int (card (deps_of D i - P)) \<le> m)
   \<and> set (map task_id q) \<subseteq> set (keys D)
   \<and> distinct (map task_id q)
   \<and> set (map task_id q) \<inter> P = {}
   \<and> P \<subseteq> set (keys D)
   \<and> (\<forall>i \<in> set (map task_id q) \<union> P. amap od i = Some 0)
   \<and> n = card P
   \<and> (\<forall>i. lookup dd i = lookup R i)
   \<and> P \<inter> S = {}"

text \<open>The state in which \<^verbatim>\<open>__has_cycles\<close> enters its loop.\<close>

definition out_degree0 :: "(ref list) task_dict \<Rightarrow> int task_dict" where
  "out_degree0 D = map (\<lambda>(task, dependencies). (task, int (length dependencies))) D"

definition ready_queue0 :: "(ref list) task_dict \<Rightarrow> ref list" where
  "ready_queue0 D = map fst (filter (\<lambda>(task, degree). degree = 0) (out_degree0 D))"

text \<open>The condition of \<open>sched_inv\<close> on one entry of \<open>task_to_dependents\<close>.\<close>

definition entry_ok :: "(ref list) task_dict \<Rightarrow> ref \<times> ref list \<Rightarrow> bool" where
  "entry_ok D e = (distinct (map task_id (snd e)) \<and> (\<forall>t \<in> set (snd e). depends_on D t (fst e)))"

section \<open>Properties of single-task operations\<close>

text \<open>
  Claim C9. \<^verbatim>\<open>cancel()\<close> is idempotent and modifies only the cancellation flag: for a
  task in any status, after any number \<open>n \<ge> 1\<close> of calls the status, the result, the
  dependency set and the three callback slots are what they were, the flag is set, and
  the task state is the one a single call produces (in particular two calls give the
  state of one).
\<close>

theorem cancel_idempotent_frame:
  "task_status ((cancel ^^ Suc n) t) = task_status t
   \<and> task_result ((cancel ^^ Suc n) t) = task_result t
   \<and> dependencies ((cancel ^^ Suc n) t) = dependencies t
   \<and> on_task_completed ((cancel ^^ Suc n) t) = on_task_completed t
   \<and> on_task_failed ((cancel ^^ Suc n) t) = on_task_failed t
   \<and> on_task_canceled ((cancel ^^ Suc n) t) = on_task_canceled t
   \<and> canceled_event ((cancel ^^ Suc n) t)
   \<and> (cancel ^^ Suc n) t = cancel t
   \<and> cancel (cancel t) = cancel t"
proof -
  have once: "cancel (cancel u) = cancel u" for u :: Task
    by (simp add: cancel_def)
  have many: "(cancel ^^ Suc n) t = cancel t"
    by (induction n) (simp_all add: once)
  show ?thesis
    unfolding many by (simp add: cancel_def)
qed

section \<open>Properties of the scheduler's dictionaries\<close>

lemma dict_contains_iff:
  "dict_contains d k = (\<exists>k' \<in> set (map fst d). task_eq k' k)"
  by (induction d) (auto simp: dict_contains_def)

lemma dict_get_SomeD: "dict_get d k = Some v \<Longrightarrow> \<exists>k'. (k', v) \<in> set d \<and> task_eq k' k"
  by (induction d) (auto split: if_splits)

section \<open>schedule\<close>

text \<open>
  Claim C4. For every world and every task \<open>t\<close>, \<^verbatim>\<open>schedule(t)\<close> raises the scheduling
  error if and only if a key of \<open>task_to_dependencies\<close> has the identifier of \<open>t\<close>; it
  raises nothing else; and when it raises, \<open>task_to_dependencies\<close> and
  \<open>task_to_dependents\<close> (indeed the whole world) are what they were.
\<close>

theorem schedule_duplicate:
  "(fst (schedule w t) = Some SchedulingException)
     = (\<exists>k \<in> set (map fst (task_to_dependencies (sched w))). task_id k = task_id t)
   \<and> (fst (schedule w t) = None \<or> fst (schedule w t) = Some SchedulingException)
   \<and> (fst (schedule w t) = Some SchedulingException \<longrightarrow>
        task_to_dependencies (sched (snd (schedule w t))) = task_to_dependencies (sched w)
        \<and> task_to_dependents (sched (snd (schedule w t))) = task_to_dependents (sched w)
        \<and> snd (schedule w t) = w)"
  by (auto simp: schedule_def dict_contains_iff task_eq_def Let_def)

theorem schedule_duplicate_witness:
  "fst (schedule chain_world (Ref ''A'' 9)) = Some SchedulingException
   \<and> snd (schedule chain_world (Ref ''A'' 9)) = chain_world
   \<and> fst (schedule chain_world (Ref ''D'' 3)) = None"
proof -
  have 1: "\<exists>k \<in> set (map fst (task_to_dependencies (sched chain_world))).
             task_id k = task_id (Ref ''A'' 9)"
    by code_simp
  have 2: "\<not> (\<exists>k \<in> set (map fst (task_to_dependencies (sched chain_world))).
             task_id k = task_id (Ref ''D'' 3))"
    by code_simp
  from 1 2 schedule_duplicate[of chain_world "Ref ''A'' 9"]
    schedule_duplicate[of chain_world "Ref ''D'' 3"]
  show ?thesis by blast
qed

section \<open>The readiness scan of ready\_tasks\<close>

lemma settled_iff:
  "(s \<noteq> RUNNING \<and> s \<noteq> PENDING \<and> s \<noteq> SCHEDULED) = (s \<in> {COMPLETED, FAILED, CANCELED})"
  by (cases s) auto

lemma all_deps_completed_iff:
  "all_deps_completed w deps =
    (\<forall>d \<in> set deps. task_status (heap w d) \<in> {COMPLETED, FAILED, CANCELED})"
  unfolding all_deps_completed_def list_all_iff settled_iff ..

lemma ready_iff:
  "ready w t deps = (task_status (heap w t) = PENDING \<and> all_deps_completed w deps)"
  by (simp add: ready_def all_deps_completed_iff list_all_iff)

lemma find_ready_Some:
  "find_ready w items = Some t \<Longrightarrow>
   \<exists>pre deps post. items = pre @ (t, deps) # post
      \<and> task_status (heap w t) = PENDING \<and> all_deps_completed w deps
      \<and> (\<forall>(t', deps') \<in> set pre.
            \<not> (task_status (heap w t') = PENDING \<and> all_deps_completed w deps'))"
proof (induction items)
  case Nil
  then show ?case by simp
next
  case (Cons a items)
  obtain t0 d0 where a: "a = (t0, d0)" by (cases a)
  show ?case
  proof (cases "task_status (heap w t0) = PENDING \<and> all_deps_completed w d0")
    case True
    with Cons.prems a have "t = t0" by auto
    with True a show ?thesis
      by (intro exI[of _ "[]"] exI[of _ d0] exI[of _ items]) simp
  next
    case False
    with Cons.prems a have "find_ready w items = Some t" by (auto split: if_splits)
    from Cons.IH[OF this] obtain pre deps post where
      "items = pre @ (t, deps) # post" "task_status (heap w t) = PENDING"
      "all_deps_completed w deps"
      "\<forall>(t', deps') \<in> set pre.
          \<not> (task_status (heap w t') = PENDING \<and> all_deps_completed w deps')"
      by blast
    with False a show ?thesis
      by (intro exI[of _ "a # pre"] exI[of _ deps] exI[of _ post]) auto
  qed
qed

lemma find_ready_None:
  "find_ready w items = None \<Longrightarrow>
   \<forall>(t, deps) \<in> set items. \<not> (task_status (heap w t) = PENDING \<and> all_deps_completed w deps)"
  by (induction items) (auto split: if_splits)

lemma has_cycles_task_to_dependencies:
  "task_to_dependencies (snd (has_cycles s)) = task_to_dependencies s"
  by (simp add: has_cycles_def Let_def split: prod.splits sum.splits)

lemma ready_loop_Yielded:
  assumes "ready_loop w = (Yielded t, g', w')"
  shows "\<exists>pre deps post. task_to_dependencies (sched w) = pre @ (t, deps) # post
           \<and> ready w t deps \<and> list_all (\<lambda>(t', deps'). \<not> ready w t' deps') pre
           \<and> g' = Suspended
           \<and> w' = w\<lparr>heap := (heap w)(t := mark_as_scheduled (heap w t))\<rparr>"
proof -
  from assms have f: "find_ready w (task_to_dependencies (sched w)) = Some t"
    and w': "w' = w\<lparr>heap := (heap w)(t := mark_as_scheduled (heap w t))\<rparr>"
    and g': "g' = Suspended"
    by (auto simp: ready_loop_def split: if_splits option.splits)
  from find_ready_Some[OF f] w' g' show ?thesis
    by (fastforce simp: ready_iff list_all_iff)
qed

lemma ready_tasks_next_Yielded:
  assumes "ready_tasks_next g w = (Yielded t, g', w')"
  shows "\<exists>w0. ready_loop w0 = (Yielded t, g', w') \<and> heap w0 = heap w
            \<and> task_to_dependencies (sched w0) = task_to_dependencies (sched w)"
proof (cases g)
  case Created
  with assms obtain s' where "has_cycles (sched w) = (Inr False, s')"
    and "ready_loop (w\<lparr>sched := s'\<rparr>) = (Yielded t, g', w')"
    by (auto simp: ready_tasks_next_def split: prod.splits sum.splits if_splits bool.splits)
  moreover from this have "task_to_dependencies s' = task_to_dependencies (sched w)"
    using has_cycles_task_to_dependencies[of "sched w"] by simp
  ultimately show ?thesis
    by (intro exI[of _ "w\<lparr>sched := s'\<rparr>"]) simp
next
  case Suspended
  with assms show ?thesis by (intro exI[of _ w]) (simp add: ready_tasks_next_def)
next
  case Waiting
  with assms show ?thesis by (intro exI[of _ w]) (simp add: ready_tasks_next_def)
next
  case Finished
  with assms show ?thesis by (simp add: ready_tasks_next_def)
qed

text \<open>
  Claim C2. \<^verbatim>\<open>ready_tasks\<close> never yields a task while one of its dependencies is Pending,
  Scheduled or Running: whenever an advance of the generator (from any generator state,
  in any world) yields a task \<open>t\<close>, then in the world the consumer receives, \<open>t\<close> is a key
  of \<open>task_to_dependencies\<close> whose recorded dependencies are all Completed, Failed or
  Canceled.
\<close>

theorem ready_tasks_yields_only_settled:
  assumes "ready_tasks_next g w = (Yielded t, g', w')"
  shows "\<exists>deps. (t, deps) \<in> set (task_to_dependencies (sched w'))
           \<and> (\<forall>d \<in> set deps. task_status (heap w' d) \<in> {COMPLETED, FAILED, CANCELED})
           \<and> (\<forall>d \<in> set deps. task_status (heap w' d) \<notin> {PENDING, SCHEDULED, RUNNING})"
proof -
  from ready_tasks_next_Yielded[OF assms] obtain w0 where
    l: "ready_loop w0 = (Yielded t, g', w')" and h: "heap w0 = heap w"
    and D: "task_to_dependencies (sched w0) = task_to_dependencies (sched w)" by blast
  from ready_loop_Yielded[OF l] obtain pre deps post where
    items: "task_to_dependencies (sched w0) = pre @ (t, deps) # post"
    and r: "ready w0 t deps"
    and w': "w' = w0\<lparr>heap := (heap w0)(t := mark_as_scheduled (heap w0 t))\<rparr>" by blast
  have "task_status (heap w' d) \<in> {COMPLETED, FAILED, CANCELED}" if "d \<in> set deps" for d
  proof -
    from r that have s: "task_status (heap w0 d) \<in> {COMPLETED, FAILED, CANCELED}"
      by (simp add: ready_def list_all_iff)
    moreover from r have "task_status (heap w0 t) = PENDING" by (simp add: ready_def)
    ultimately have "d \<noteq> t" by auto
    with s w' show ?thesis by simp
  qed
  note settled = this
  have unsettled: "task_status (heap w' d) \<notin> {PENDING, SCHEDULED, RUNNING}"
    if "d \<in> set deps" for d
    using settled[OF that] by auto
  have "(t, deps) \<in> set (task_to_dependencies (sched w'))"
    using items w' by simp
  with settled unsettled show ?thesis by blast
qed

theorem ready_tasks_yields_only_settled_witness:
  "fst (ready_tasks_next Suspended chain_world_A_done) = Yielded task_B
   \<and> (\<exists>deps. (task_B, deps) \<in> set (task_to_dependencies
                  (sched (snd (snd (ready_tasks_next Suspended chain_world_A_done)))))
         \<and> (\<forall>d \<in> set deps.
               task_status (heap (snd (snd (ready_tasks_next Suspended chain_world_A_done))) d)
                 \<in> {COMPLETED, FAILED, CANCELED})
         \<and> (\<forall>d \<in> set deps.
               task_status (heap (snd (snd (ready_tasks_next Suspended chain_world_A_done))) d)
                 \<notin> {PENDING, SCHEDULED, RUNNING}))"
proof -
  have y: "fst (ready_tasks_next Suspended chain_world_A_done) = Yielded task_B"
    by code_simp
  then have "ready_tasks_next Suspended chain_world_A_done =
    (Yielded task_B, fst (snd (ready_tasks_next Suspended chain_world_A_done)),
       snd (snd (ready_tasks_next Suspended chain_world_A_done)))"
    by (metis prod.collapse)
  from ready_tasks_yields_only_settled[OF this] y show ?thesis by blast
qed

text \<open>
  Claim C7. One iteration of the loop of \<^verbatim>\<open>ready_tasks\<close> (every advance of a suspended
  or woken generator is one): if no key of \<open>task_to_dependencies\<close> is Pending, the
  sequence ends with \<open>StopIteration\<close>, no error, and the world unchanged; and if some
  entry is ready, the entry selected is the first ready one in the order of the mapping
  (no entry before it is ready), the task is yielded, and in the world handed over with
  it the only change is that its status is Scheduled. The result is a function of the
  world, so ties are broken by that order alone.
\<close>

theorem ready_loop_iteration:
  "(\<not> list_ex (\<lambda>t. task_status (heap w t) = PENDING) (map fst (task_to_dependencies (sched w)))
      \<longrightarrow> ready_loop w = (StopIteration, Finished, w))
   \<and> (list_ex (\<lambda>(t, deps). ready w t deps) (task_to_dependencies (sched w)) \<longrightarrow>
        (\<exists>pre t deps post.
            task_to_dependencies (sched w) = pre @ (t, deps) # post
          \<and> list_all (\<lambda>(t', deps'). \<not> ready w t' deps') pre
          \<and> ready w t deps
          \<and> ready_loop w =
              (Yielded t, Suspended,
               w\<lparr>heap := (heap w)(t := (heap w t)\<lparr>task_status := SCHEDULED\<rparr>)\<rparr>)))
   \<and> ready_tasks_next Suspended w = ready_loop w
   \<and> ready_tasks_next Waiting w = ready_loop w"
proof (intro conjI impI)
  assume "\<not> list_ex (\<lambda>t. task_status (heap w t) = PENDING)
              (map fst (task_to_dependencies (sched w)))"
  then show "ready_loop w = (StopIteration, Finished, w)"
    by (simp add: ready_loop_def has_pending_tasks_def)
next
  assume ex: "list_ex (\<lambda>(t, deps). ready w t deps) (task_to_dependencies (sched w))"
  then obtain t0 d0 where in0: "(t0, d0) \<in> set (task_to_dependencies (sched w))"
    and r0: "ready w t0 d0"
    by (auto simp: list_ex_iff)
  then have pend: "has_pending_tasks w"
    by (force simp: has_pending_tasks_def list_ex_iff ready_def)
  have "find_ready w (task_to_dependencies (sched w)) \<noteq> None"
    using find_ready_None[of w "task_to_dependencies (sched w)"] in0 r0
    by (auto simp: ready_iff)
  then obtain t where f: "find_ready w (task_to_dependencies (sched w)) = Some t" by auto
  with pend have l: "ready_loop w =
      (Yielded t, Suspended, w\<lparr>heap := (heap w)(t := mark_as_scheduled (heap w t))\<rparr>)"
    by (simp add: ready_loop_def)
  from ready_loop_Yielded[OF l] l
  show "\<exists>pre t deps post.
            task_to_dependencies (sched w) = pre @ (t, deps) # post
          \<and> list_all (\<lambda>(t', deps'). \<not> ready w t' deps') pre
          \<and> ready w t deps
          \<and> ready_loop w =
              (Yielded t, Suspended,
               w\<lparr>heap := (heap w)(t := (heap w t)\<lparr>task_status := SCHEDULED\<rparr>)\<rparr>)"
    unfolding mark_as_scheduled_def by blast
qed (simp_all add: ready_tasks_next_def)

theorem ready_loop_iteration_witness:
  "task_to_dependencies (sched solo_world_done) = [(task_A, [])]
   \<and> ready_loop solo_world_done = (StopIteration, Finished, solo_world_done)
   \<and> (\<exists>pre t deps post.
            task_to_dependencies (sched chain_world_A_done) = pre @ (t, deps) # post
          \<and> list_all (\<lambda>(t', deps'). \<not> ready chain_world_A_done t' deps') pre
          \<and> ready chain_world_A_done t deps
          \<and> ready_loop chain_world_A_done =
              (Yielded t, Suspended,
               chain_world_A_done\<lparr>heap := (heap chain_world_A_done)
                  (t := (heap chain_world_A_done t)\<lparr>task_status := SCHEDULED\<rparr>)\<rparr>))
   \<and> fst (ready_loop chain_world_A_done) = Yielded task_B"
proof -
  have 0: "task_to_dependencies (sched solo_world_done) = [(task_A, [])]"
    "fst (ready_loop chain_world_A_done) = Yielded task_B"
    by code_simp+
  have 1: "\<not> list_ex (\<lambda>t. task_status (heap solo_world_done t) = PENDING)
             (map fst (task_to_dependencies (sched solo_world_done)))"
    by code_simp
  have 2: "list_ex (\<lambda>(t, deps). ready chain_world_A_done t deps)
             (task_to_dependencies (sched chain_world_A_done))"
    by code_simp
  from ready_loop_iteration[of solo_world_done] 1
  have a: "ready_loop solo_world_done = (StopIteration, Finished, solo_world_done)" by blast
  from ready_loop_iteration[of chain_world_A_done] 2
  have b: "\<exists>pre t deps post.
            task_to_dependencies (sched chain_world_A_done) = pre @ (t, deps) # post
          \<and> list_all (\<lambda>(t', deps'). \<not> ready chain_world_A_done t' deps') pre
          \<and> ready chain_world_A_done t deps
          \<and> ready_loop chain_world_A_done =
              (Yielded t, Suspended,
               chain_world_A_done\<lparr>heap := (heap chain_world_A_done)
                  (t := (heap chain_world_A_done t)\<lparr>task_status := SCHEDULED\<rparr>)\<rparr>)" by blast
  from 0 a b show ?thesis by blast
qed

section \<open>execute\_task\<close>

subsection \<open>What the handlers and callbacks leave unchanged\<close>

lemma cancel_all_frame:
  "task_status (cancel_all h ds r) = task_status (h r)
   \<and> task_result (cancel_all h ds r) = task_result (h r)
   \<and> dependencies (cancel_all h ds r) = dependencies (h r)
   \<and> on_task_completed (cancel_all h ds r) = on_task_completed (h r)
   \<and> on_task_failed (cancel_all h ds r) = on_task_failed (h r)
   \<and> on_task_canceled (cancel_all h ds r) = on_task_canceled (h r)"
  unfolding cancel_all_def
  by (induction ds arbitrary: h) (simp_all add: cancel_def)

lemma cancel_all_flag:
  "canceled_event (cancel_all h ds r) = (canceled_event (h r) \<or> r \<in> set ds)"
  unfolding cancel_all_def
  by (induction ds arbitrary: h) (auto simp: cancel_def)

lemma call_callback_frame:
  assumes "call_callback f w task = (e, w')"
  shows "task_status (heap w' r) = task_status (heap w r)"
    and "task_result (heap w' r) = task_result (heap w r)"
    and "on_task_completed (heap w' r) = on_task_completed (heap w r)"
    and "on_task_failed (heap w' r) = on_task_failed (heap w r)"
    and "on_task_canceled (heap w' r) = on_task_canceled (heap w r)"
    and "calls w' = calls w"
    and "task_to_dependencies (sched w') = task_to_dependencies (sched w)"
    and "e = callback_raises f"
    and "canceled_event (heap w r) \<Longrightarrow> canceled_event (heap w' r)"
  using assms
  by (cases f; auto simp: Scheduler_on_task_completed_def Scheduler_on_task_failed_def
        Scheduler_on_task_canceled_def cancel_all_frame cancel_all_flag split: prod.splits)+

lemma handler_flags_dependents:
  assumes "call_callback f w task = (e, w')" "f = Handler_failed \<or> f = Handler_canceled"
  shows "canceled_event (heap w' r) =
           (canceled_event (heap w r) \<or> r \<in> set (fst (defaultdict_get (task_to_dependents (sched w)) task)))"
  using assms
  by (auto simp: Scheduler_on_task_failed_def Scheduler_on_task_canceled_def cancel_all_flag
       split: prod.splits)

lemma set_status_simps [simp]:
  "task_status (heap (set_status w r s) u) = (if u = r then s else task_status (heap w u))"
  "task_result (heap (set_status w r s) u) = task_result (heap w u)"
  "canceled_event (heap (set_status w r s) u) = canceled_event (heap w u)"
  "on_task_completed (heap (set_status w r s) u) = on_task_completed (heap w u)"
  "on_task_failed (heap (set_status w r s) u) = on_task_failed (heap w u)"
  "on_task_canceled (heap (set_status w r s) u) = on_task_canceled (heap w u)"
  "calls (set_status w r s) = calls w"
  "sched (set_status w r s) = sched w"
  by (simp_all add: set_status_def)

lemma set_result_simps [simp]:
  "task_status (heap (set_result w r v) u) = task_status (heap w u)"
  "task_result (heap (set_result w r v) u) = (if u = r then v else task_result (heap w u))"
  "canceled_event (heap (set_result w r v) u) = canceled_event (heap w u)"
  "on_task_completed (heap (set_result w r v) u) = on_task_completed (heap w u)"
  "on_task_failed (heap (set_result w r v) u) = on_task_failed (heap w u)"
  "on_task_canceled (heap (set_result w r v) u) = on_task_canceled (heap w u)"
  "calls (set_result w r v) = calls w"
  "sched (set_result w r v) = sched w"
  by (simp_all add: set_result_def)

lemma record_call_simps [simp]:
  "heap (record_call c w) = heap w"
  "calls (record_call c w) = calls w @ [c]"
  "sched (record_call c w) = sched w"
  by (simp_all add: record_call_def)

lemma fire_frame:
  assumes "fire slot c w self = (e, w')"
  shows "task_status (heap w' r) = task_status (heap w r)"
    and "task_result (heap w' r) = task_result (heap w r)"
    and "on_task_completed (heap w' r) = on_task_completed (heap w r)"
    and "on_task_failed (heap w' r) = on_task_failed (heap w r)"
    and "on_task_canceled (heap w' r) = on_task_canceled (heap w r)"
    and "calls w' = calls w @ fired slot c"
    and "task_to_dependencies (sched w') = task_to_dependencies (sched w)"
    and "e = slot_raises slot"
    and "canceled_event (heap w r) \<Longrightarrow> canceled_event (heap w' r)"
proof -
  show "task_status (heap w' r) = task_status (heap w r)"
    using assms call_callback_frame(1)[of _ "record_call c w" self e w' r]
    by (auto simp: fire_def split: option.splits)
  show "task_result (heap w' r) = task_result (heap w r)"
    using assms call_callback_frame(2)[of _ "record_call c w" self e w' r]
    by (auto simp: fire_def split: option.splits)
  show "on_task_completed (heap w' r) = on_task_completed (heap w r)"
    using assms call_callback_frame(3)[of _ "record_call c w" self e w' r]
    by (auto simp: fire_def split: option.splits)
  show "on_task_failed (heap w' r) = on_task_failed (heap w r)"
    using assms call_callback_frame(4)[of _ "record_call c w" self e w' r]
    by (auto simp: fire_def split: option.splits)
  show "on_task_canceled (heap w' r) = on_task_canceled (heap w r)"
    using assms call_callback_frame(5)[of _ "record_call c w" self e w' r]
    by (auto simp: fire_def split: option.splits)
  show "calls w' = calls w @ fired slot c"
    using assms call_callback_frame(6)[of _ "record_call c w" self e w']
    by (auto simp: fire_def fired_def split: option.splits)
  show "task_to_dependencies (sched w') = task_to_dependencies (sched w)"
    using assms call_callback_frame(7)[of _ "record_call c w" self e w']
    by (auto simp: fire_def split: option.splits)
  show "e = slot_raises slot"
    using assms call_callback_frame(8)[of _ "record_call c w" self e w']
    by (auto simp: fire_def slot_raises_def split: option.splits)
  show "canceled_event (heap w r) \<Longrightarrow> canceled_event (heap w' r)"
    using assms call_callback_frame(9)[of _ "record_call c w" self e w' r]
    by (auto simp: fire_def split: option.splits)
qed

lemma except_clause_eq:
  "except_clause w self x =
     (if is_Exception x
      then fire (on_task_failed (heap w self)) (On_failed self)
             (set_status (set_result w self (PyExn x)) self FAILED) self
      else (Some x, w))"
  by (simp add: except_clause_def fire_def Let_def)

lemma execute_task_eq:
  "execute_task w self outcome =
     (if canceled_event (heap w self)
      then fire (on_task_canceled (heap w self)) (On_canceled self) (set_status w self CANCELED) self
      else (case outcome of
              Raises x \<Rightarrow>
                except_clause (record_call (Work_function self) (set_status w self RUNNING)) self x
            | Returns v \<Rightarrow>
                (case fire (on_task_completed (heap w self)) (On_completed self)
                        (set_status (set_result (record_call (Work_function self)
                            (set_status w self RUNNING)) self v) self COMPLETED) self of
                   (None, w5) \<Rightarrow> (None, w5)
                 | (Some x, w5) \<Rightarrow> except_clause w5 self x)))"
  by (simp add: execute_task_def fire_def Let_def split: option.splits outcome.splits)

lemma execute_task_canceled:
  assumes "execute_task w self outcome = (e, w')" "canceled_event (heap w self)"
  shows "task_status (heap w' u) = (if u = self then CANCELED else task_status (heap w u))"
    and "task_result (heap w' u) = task_result (heap w u)"
    and "calls w' = calls w @ fired (on_task_canceled (heap w self)) (On_canceled self)"
    and "e = slot_raises (on_task_canceled (heap w self))"
proof -
  from assms have f: "fire (on_task_canceled (heap w self)) (On_canceled self)
      (set_status w self CANCELED) self = (e, w')"
    by (simp add: execute_task_eq)
  show "task_status (heap w' u) = (if u = self then CANCELED else task_status (heap w u))"
    using fire_frame(1)[OF f, of u] by simp
  show "task_result (heap w' u) = task_result (heap w u)"
    using fire_frame(2)[OF f, of u] by simp
  show "calls w' = calls w @ fired (on_task_canceled (heap w self)) (On_canceled self)"
    using fire_frame(6)[OF f] by simp
  show "e = slot_raises (on_task_canceled (heap w self))"
    using fire_frame(8)[OF f] by simp
qed

lemma except_clause_caught:
  assumes "except_clause w self x = (e, w')" "is_Exception x"
  shows "task_status (heap w' u) = (if u = self then FAILED else task_status (heap w u))"
    and "task_result (heap w' u) = (if u = self then PyExn x else task_result (heap w u))"
    and "calls w' = calls w @ fired (on_task_failed (heap w self)) (On_failed self)"
    and "e = slot_raises (on_task_failed (heap w self))"
proof -
  from assms have f: "fire (on_task_failed (heap w self)) (On_failed self)
             (set_status (set_result w self (PyExn x)) self FAILED) self = (e, w')"
    by (simp add: except_clause_eq)
  show "task_status (heap w' u) = (if u = self then FAILED else task_status (heap w u))"
    using fire_frame(1)[OF f, of u] by simp
  show "task_result (heap w' u) = (if u = self then PyExn x else task_result (heap w u))"
    using fire_frame(2)[OF f, of u] by simp
  show "calls w' = calls w @ fired (on_task_failed (heap w self)) (On_failed self)"
    using fire_frame(6)[OF f] by simp
  show "e = slot_raises (on_task_failed (heap w self))"
    using fire_frame(8)[OF f] by simp
qed

lemma execute_task_raises_Exception:
  assumes "execute_task w self (Raises x) = (e, w')" "\<not> canceled_event (heap w self)"
    "is_Exception x"
  shows "task_status (heap w' u) = (if u = self then FAILED else task_status (heap w u))"
    and "task_result (heap w' u) = (if u = self then PyExn x else task_result (heap w u))"
    and "calls w' = calls w @ [Work_function self]
            @ fired (on_task_failed (heap w self)) (On_failed self)"
    and "e = slot_raises (on_task_failed (heap w self))"
proof -
  from assms have x: "except_clause (record_call (Work_function self) (set_status w self RUNNING))
       self x = (e, w')"
    by (simp add: execute_task_eq)
  show "task_status (heap w' u) = (if u = self then FAILED else task_status (heap w u))"
    using except_clause_caught(1)[OF x assms(3), of u] by simp
  show "task_result (heap w' u) = (if u = self then PyExn x else task_result (heap w u))"
    using except_clause_caught(2)[OF x assms(3), of u] by simp
  show "calls w' = calls w @ [Work_function self]
            @ fired (on_task_failed (heap w self)) (On_failed self)"
    using except_clause_caught(3)[OF x assms(3)] by simp
  show "e = slot_raises (on_task_failed (heap w self))"
    using except_clause_caught(4)[OF x assms(3)] by simp
qed

lemma execute_task_raises_BaseException:
  assumes "execute_task w self (Raises x) = (e, w')" "\<not> canceled_event (heap w self)"
    "\<not> is_Exception x"
  shows "task_status (heap w' u) = (if u = self then RUNNING else task_status (heap w u))"
    and "task_result (heap w' u) = task_result (heap w u)"
    and "calls w' = calls w @ [Work_function self]"
    and "e = Some x"
  using assms by (auto simp: execute_task_eq except_clause_eq)

lemma execute_task_returns:
  assumes "execute_task w self (Returns v) = (e, w')" "\<not> canceled_event (heap w self)"
    "\<not> caught (slot_raises (on_task_completed (heap w self)))"
  shows "task_status (heap w' u) = (if u = self then COMPLETED else task_status (heap w u))"
    and "task_result (heap w' u) = (if u = self then v else task_result (heap w u))"
    and "calls w' = calls w @ [Work_function self]
            @ fired (on_task_completed (heap w self)) (On_completed self)"
    and "e = slot_raises (on_task_completed (heap w self))"
proof -
  let ?w4 = "set_status (set_result (record_call (Work_function self)
                            (set_status w self RUNNING)) self v) self COMPLETED"
  obtain e5 w5 where f: "fire (on_task_completed (heap w self)) (On_completed self) ?w4 self = (e5, w5)"
    by (cases "fire (on_task_completed (heap w self)) (On_completed self) ?w4 self")
  have e5: "e5 = slot_raises (on_task_completed (heap w self))"
    using fire_frame(8)[OF f] .
  have "(e, w') = (e5, w5)"
  proof (cases e5)
    case None
    with assms(1,2) f show ?thesis by (simp add: execute_task_eq)
  next
    case (Some x)
    with e5 assms(3) have "\<not> is_Exception x" by (metis caught.simps(2))
    with Some assms(1,2) f show ?thesis by (simp add: execute_task_eq except_clause_eq)
  qed
  then have ew: "e = e5" "w' = w5" by simp_all
  show "task_status (heap w' u) = (if u = self then COMPLETED else task_status (heap w u))"
    using fire_frame(1)[OF f, of u] ew by simp
  show "task_result (heap w' u) = (if u = self then v else task_result (heap w u))"
    using fire_frame(2)[OF f, of u] ew by simp
  show "calls w' = calls w @ [Work_function self]
            @ fired (on_task_completed (heap w self)) (On_completed self)"
    using fire_frame(6)[OF f] ew by simp
  show "e = slot_raises (on_task_completed (heap w self))"
    using e5 ew by simp
qed
lemma execute_task_status:
  assumes "execute_task w self outcome = (e, w')"
    "\<not> caught (slot_raises (on_task_completed (heap w self)))"
  shows "task_status (heap w' u) =
     (if u \<noteq> self then task_status (heap w u)
      else if canceled_event (heap w self) then CANCELED
      else (case outcome of Returns v \<Rightarrow> COMPLETED
            | Raises x \<Rightarrow> if is_Exception x then FAILED else RUNNING))"
proof (cases "canceled_event (heap w self)")
  case True
  from execute_task_canceled(1)[OF assms(1) True, of u] True show ?thesis by simp
next
  case False
  show ?thesis
  proof (cases outcome)
    case (Returns v)
    with assms False execute_task_returns(1)[of w self v e w' u] show ?thesis by simp
  next
    case (Raises x)
    with assms False execute_task_raises_Exception(1)[of w self x e w' u]
      execute_task_raises_BaseException(1)[of w self x e w' u]
    show ?thesis by (cases "is_Exception x") simp_all
  qed
qed

text \<open>
  Claim C6 (as amended). One call of \<^verbatim>\<open>execute_task\<close> does exactly one of the following,
  by the cancellation flag and by how the work function ends. Flag set: the status
  becomes Canceled, the result is untouched, and the only call made is the on-canceled
  callback if one is registered (the work function is not invoked). Flag clear, the work
  function returns \<open>v\<close>, and the on-completed callback raises no \<^verbatim>\<open>Exception\<close>: Completed,
  result \<open>v\<close>, calls: the work function, then on-completed if registered. Flag clear and
  the work function raises an \<^verbatim>\<open>Exception\<close> \<open>x\<close>: Failed, result \<open>x\<close>, calls: the work
  function, then on-failed if registered. Flag clear and the work function raises
  outside \<^verbatim>\<open>Exception\<close>: the status stays Running, the result is untouched, no
  callback is called and the exception leaves \<^verbatim>\<open>execute_task\<close>.
\<close>

theorem execute_task_outcomes:
  assumes "execute_task w self outcome = (e, w')"
  shows
  "(canceled_event (heap w self) \<longrightarrow>
      task_status (heap w' self) = CANCELED
      \<and> task_result (heap w' self) = task_result (heap w self)
      \<and> calls w' = calls w @ fired (on_task_canceled (heap w self)) (On_canceled self))
   \<and> (\<not> canceled_event (heap w self) \<and> outcome = Returns v
        \<and> \<not> caught (slot_raises (on_task_completed (heap w self))) \<longrightarrow>
      task_status (heap w' self) = COMPLETED
      \<and> task_result (heap w' self) = v
      \<and> calls w' = calls w @ [Work_function self]
            @ fired (on_task_completed (heap w self)) (On_completed self))
   \<and> (\<not> canceled_event (heap w self) \<and> outcome = Raises x \<and> is_Exception x \<longrightarrow>
      task_status (heap w' self) = FAILED
      \<and> task_result (heap w' self) = PyExn x
      \<and> calls w' = calls w @ [Work_function self]
            @ fired (on_task_failed (heap w self)) (On_failed self))
   \<and> (\<not> canceled_event (heap w self) \<and> outcome = Raises x \<and> \<not> is_Exception x \<longrightarrow>
      task_status (heap w' self) = RUNNING
      \<and> task_result (heap w' self) = task_result (heap w self)
      \<and> calls w' = calls w @ [Work_function self]
      \<and> e = Some x)"
proof (intro conjI impI)
  assume c: "canceled_event (heap w self)"
  show "task_status (heap w' self) = CANCELED"
    using execute_task_canceled(1)[OF assms c, of self] by simp
  show "task_result (heap w' self) = task_result (heap w self)"
    using execute_task_canceled(2)[OF assms c] .
  show "calls w' = calls w @ fired (on_task_canceled (heap w self)) (On_canceled self)"
    using execute_task_canceled(3)[OF assms c] .
next
  assume "\<not> canceled_event (heap w self) \<and> outcome = Returns v
        \<and> \<not> caught (slot_raises (on_task_completed (heap w self)))"
  with assms have a: "execute_task w self (Returns v) = (e, w')"
    "\<not> canceled_event (heap w self)"
    "\<not> caught (slot_raises (on_task_completed (heap w self)))" by simp_all
  show "task_status (heap w' self) = COMPLETED"
    using execute_task_returns(1)[OF a, of self] by simp
  show "task_result (heap w' self) = v"
    using execute_task_returns(2)[OF a, of self] by simp
  show "calls w' = calls w @ [Work_function self]
            @ fired (on_task_completed (heap w self)) (On_completed self)"
    using execute_task_returns(3)[OF a] .
next
  assume "\<not> canceled_event (heap w self) \<and> outcome = Raises x \<and> is_Exception x"
  with assms have a: "execute_task w self (Raises x) = (e, w')"
    "\<not> canceled_event (heap w self)" "is_Exception x" by simp_all
  show "task_status (heap w' self) = FAILED"
    using execute_task_raises_Exception(1)[OF a, of self] by simp
  show "task_result (heap w' self) = PyExn x"
    using execute_task_raises_Exception(2)[OF a, of self] by simp
  show "calls w' = calls w @ [Work_function self]
            @ fired (on_task_failed (heap w self)) (On_failed self)"
    using execute_task_raises_Exception(3)[OF a] .
next
  assume "\<not> canceled_event (heap w self) \<and> outcome = Raises x \<and> \<not> is_Exception x"
  with assms have a: "execute_task w self (Raises x) = (e, w')"
    "\<not> canceled_event (heap w self)" "\<not> is_Exception x" by simp_all
  show "task_status (heap w' self) = RUNNING"
    using execute_task_raises_BaseException(1)[OF a, of self] by simp
  show "task_result (heap w' self) = task_result (heap w self)"
    using execute_task_raises_BaseException(2)[OF a] .
  show "calls w' = calls w @ [Work_function self]"
    using execute_task_raises_BaseException(3)[OF a] .
  show "e = Some x"
    using execute_task_raises_BaseException(4)[OF a] .
qed

theorem execute_task_outcomes_witness:
  "task_status (heap (snd (execute_task chain_world_B_yielded task_B (Returns (PyInt 2)))) task_B)
      = CANCELED
   \<and> calls (snd (execute_task chain_world_B_yielded task_B (Returns (PyInt 2))))
      = calls chain_world_B_yielded @ [On_canceled task_B]
   \<and> task_status (heap (snd (execute_task chain_world_started task_A (Returns (PyInt 1)))) task_A)
      = COMPLETED
   \<and> task_result (heap (snd (execute_task chain_world_started task_A (Returns (PyInt 1)))) task_A)
      = PyInt 1
   \<and> task_status (heap (snd (execute_task chain_world_started task_A
         (Raises (Exception ''boom'')))) task_A) = FAILED
   \<and> task_result (heap (snd (execute_task chain_world_started task_A
         (Raises (Exception ''boom'')))) task_A) = PyExn (Exception ''boom'')
   \<and> task_status (heap (snd (execute_task chain_world_started task_A
         (Raises (BaseException ''SystemExit'')))) task_A) = RUNNING"
proof -
  have b: "canceled_event (heap chain_world_B_yielded task_B)"
    "on_task_canceled (heap chain_world_B_yielded task_B) = Some Handler_canceled"
    by code_simp+
  have a: "\<not> canceled_event (heap chain_world_started task_A)"
    "\<not> caught (slot_raises (on_task_completed (heap chain_world_started task_A)))"
    by code_simp+
  have x: "is_Exception (Exception ''boom'')" "\<not> is_Exception (BaseException ''SystemExit'')"
    by simp_all
  note t = execute_task_outcomes[OF surjective_pairing]
  from t[of chain_world_B_yielded task_B "Returns (PyInt 2)"] b
  have 1: "task_status (heap (snd (execute_task chain_world_B_yielded task_B (Returns (PyInt 2)))) task_B)
      = CANCELED"
    "calls (snd (execute_task chain_world_B_yielded task_B (Returns (PyInt 2))))
      = calls chain_world_B_yielded @ [On_canceled task_B]"
    by (simp_all add: fired_def)
  from t[of chain_world_started task_A "Returns (PyInt 1)" "PyInt 1"] a
  have 2: "task_status (heap (snd (execute_task chain_world_started task_A (Returns (PyInt 1)))) task_A)
      = COMPLETED"
    "task_result (heap (snd (execute_task chain_world_started task_A (Returns (PyInt 1)))) task_A)
      = PyInt 1"
    by simp_all
  from t[of chain_world_started task_A "Raises (Exception ''boom'')" _ "Exception ''boom''"] a x
  have 3: "task_status (heap (snd (execute_task chain_world_started task_A
         (Raises (Exception ''boom'')))) task_A) = FAILED"
    "task_result (heap (snd (execute_task chain_world_started task_A
         (Raises (Exception ''boom'')))) task_A) = PyExn (Exception ''boom'')"
    by simp_all
  from t[of chain_world_started task_A "Raises (BaseException ''SystemExit'')" _
      "BaseException ''SystemExit''"] a x
  have 4: "task_status (heap (snd (execute_task chain_world_started task_A
         (Raises (BaseException ''SystemExit'')))) task_A) = RUNNING"
    by simp
  from 1 2 3 4 show ?thesis by simp
qed

text \<open>
  Claim C6 as stated fails: \<open>A\<close> has been scheduled and yielded, its flag is clear, its
  work function raises \<^verbatim>\<open>SystemExit\<close>. The task is left Running, nothing is stored as
  result, on-failed (registered) is not called.
\<close>

theorem execute_task_BaseException_counterexample:
  "\<not> canceled_event (heap chain_world_started task_A)
   \<and> on_task_failed (heap chain_world_started task_A) = Some Handler_failed
   \<and> fst (execute_task chain_world_started task_A (Raises (BaseException ''SystemExit'')))
       = Some (BaseException ''SystemExit'')
   \<and> task_status (heap (snd (execute_task chain_world_started task_A
         (Raises (BaseException ''SystemExit'')))) task_A) = RUNNING
   \<and> task_result (heap (snd (execute_task chain_world_started task_A
         (Raises (BaseException ''SystemExit'')))) task_A) = PyNone
   \<and> calls (snd (execute_task chain_world_started task_A
         (Raises (BaseException ''SystemExit'')))) = [Work_function task_A]"
  by code_simp

section \<open>The status state machine\<close>

lemma spec_reach:
  "spec_transition\<^sup>*\<^sup>* PENDING CANCELED" "spec_transition\<^sup>*\<^sup>* SCHEDULED CANCELED"
  "spec_transition\<^sup>*\<^sup>* PENDING RUNNING" "spec_transition\<^sup>*\<^sup>* SCHEDULED RUNNING"
  "spec_transition\<^sup>*\<^sup>* PENDING COMPLETED" "spec_transition\<^sup>*\<^sup>* SCHEDULED COMPLETED"
  "spec_transition\<^sup>*\<^sup>* PENDING FAILED" "spec_transition\<^sup>*\<^sup>* SCHEDULED FAILED"
proof -
  have e: "spec_transition PENDING SCHEDULED" "spec_transition SCHEDULED RUNNING"
    "spec_transition RUNNING COMPLETED" "spec_transition RUNNING FAILED"
    "spec_transition PENDING CANCELED" "spec_transition SCHEDULED CANCELED"
    by simp_all
  show "spec_transition\<^sup>*\<^sup>* PENDING CANCELED" "spec_transition\<^sup>*\<^sup>* SCHEDULED CANCELED"
    using e by blast+
  show r: "spec_transition\<^sup>*\<^sup>* SCHEDULED RUNNING" using e by blast
  show pr: "spec_transition\<^sup>*\<^sup>* PENDING RUNNING"
    using e(1) r by (rule converse_rtranclp_into_rtranclp)
  show "spec_transition\<^sup>*\<^sup>* SCHEDULED COMPLETED" using r e(3) by (rule rtranclp.rtrancl_into_rtrancl)
  show "spec_transition\<^sup>*\<^sup>* SCHEDULED FAILED" using r e(4) by (rule rtranclp.rtrancl_into_rtrancl)
  show "spec_transition\<^sup>*\<^sup>* PENDING COMPLETED" using pr e(3) by (rule rtranclp.rtrancl_into_rtrancl)
  show "spec_transition\<^sup>*\<^sup>* PENDING FAILED" using pr e(4) by (rule rtranclp.rtrancl_into_rtrancl)
qed
lemma ready_loop_status:
  assumes "ready_loop w = (r, g', w')"
  shows "task_status (heap w' u) = task_status (heap w u)
         \<or> (r = Yielded u \<and> task_status (heap w u) = PENDING \<and> task_status (heap w' u) = SCHEDULED)"
proof (cases r)
  case (Yielded t)
  with assms have "ready_loop w = (Yielded t, g', w')" by simp
  from ready_loop_Yielded[OF this] have p: "task_status (heap w t) = PENDING"
    and w': "w' = w\<lparr>heap := (heap w)(t := mark_as_scheduled (heap w t))\<rparr>"
    by (auto simp: ready_def)
  show ?thesis
  proof (cases "u = t")
    case True
    with p w' Yielded show ?thesis by (simp add: mark_as_scheduled_def)
  next
    case False
    with w' show ?thesis by simp
  qed
qed (use assms in \<open>auto simp: ready_loop_def split: if_splits option.splits\<close>)

lemma ready_tasks_next_status:
  assumes "ready_tasks_next g w = (r, g', w')"
  shows "task_status (heap w' u) = task_status (heap w u)
         \<or> (r = Yielded u \<and> task_status (heap w u) = PENDING \<and> task_status (heap w' u) = SCHEDULED)"
proof (cases g)
  case Created
  show ?thesis
  proof (cases "has_cycles (sched w)")
    case (Pair x s')
    show ?thesis
    proof (cases "x = Inr False")
      case True
      with Pair Created assms have "ready_loop (w\<lparr>sched := s'\<rparr>) = (r, g', w')"
        by (simp add: ready_tasks_next_def)
      from ready_loop_status[OF this, of u] show ?thesis by simp
    next
      case False
      with Pair Created assms show ?thesis
        by (auto simp: ready_tasks_next_def split: sum.splits bool.splits)
    qed
  qed
next
  case Suspended
  with assms ready_loop_status[of w r g' w' u] show ?thesis by (simp add: ready_tasks_next_def)
next
  case Waiting
  with assms ready_loop_status[of w r g' w' u] show ?thesis by (simp add: ready_tasks_next_def)
next
  case Finished
  with assms show ?thesis by (auto simp: ready_tasks_next_def)
qed

text \<open>
  Claim C8 (as amended). The Task operations do not look at the current status:
  \<^verbatim>\<open>cancel\<close> never changes it, \<^verbatim>\<open>mark_as_scheduled\<close> sets Scheduled whatever it was. Status
  changes follow the state machine when the operations are used as the scheduler and
  its consumer use them: an advance of \<^verbatim>\<open>ready_tasks\<close> changes no status but that of the
  task it yields, from Pending to Scheduled; and \<^verbatim>\<open>execute_task\<close> on a Pending or
  Scheduled task whose on-completed callback raises no \<^verbatim>\<open>Exception\<close> leaves the task in
  a status the state machine reaches from there (Canceled when the flag is set,
  otherwise Running, Completed or Failed) and changes no other task's status.
\<close>

theorem status_transitions_under_protocol:
  "task_status (cancel t) = task_status t
   \<and> task_status (mark_as_scheduled t) = SCHEDULED
   \<and> (ready_tasks_next g w = (r, g', w') \<longrightarrow>
        (\<forall>u. task_status (heap w' u) = task_status (heap w u)
            \<or> (r = Yielded u \<and> task_status (heap w u) = PENDING
                \<and> task_status (heap w' u) = SCHEDULED)))
   \<and> (execute_task v self outcome = (e, v')
        \<and> task_status (heap v self) \<in> {PENDING, SCHEDULED}
        \<and> \<not> caught (slot_raises (on_task_completed (heap v self))) \<longrightarrow>
          spec_transition\<^sup>*\<^sup>* (task_status (heap v self)) (task_status (heap v' self))
        \<and> (if canceled_event (heap v self) then task_status (heap v' self) = CANCELED
           else task_status (heap v' self) \<in> {RUNNING, COMPLETED, FAILED})
        \<and> (\<forall>u. u \<noteq> self \<longrightarrow> task_status (heap v' u) = task_status (heap v u)))"
proof (intro conjI impI allI)
  show "task_status (cancel t) = task_status t" by (simp add: cancel_def)
  show "task_status (mark_as_scheduled t) = SCHEDULED" by (simp add: mark_as_scheduled_def)
next
  fix u assume "ready_tasks_next g w = (r, g', w')"
  from ready_tasks_next_status[OF this, of u]
  show "task_status (heap w' u) = task_status (heap w u)
            \<or> (r = Yielded u \<and> task_status (heap w u) = PENDING
                \<and> task_status (heap w' u) = SCHEDULED)" .
next
  assume a: "execute_task v self outcome = (e, v')
        \<and> task_status (heap v self) \<in> {PENDING, SCHEDULED}
        \<and> \<not> caught (slot_raises (on_task_completed (heap v self)))"
  then have s: "task_status (heap v' u) =
     (if u \<noteq> self then task_status (heap v u)
      else if canceled_event (heap v self) then CANCELED
      else (case outcome of Returns x \<Rightarrow> COMPLETED
            | Raises x \<Rightarrow> if is_Exception x then FAILED else RUNNING))" for u
    using execute_task_status[of v self outcome e v' u] by simp
  from a have b: "task_status (heap v self) = PENDING \<or> task_status (heap v self) = SCHEDULED"
    by simp
  show "spec_transition\<^sup>*\<^sup>* (task_status (heap v self)) (task_status (heap v' self))"
    using b s[of self] spec_reach by (auto split: outcome.splits if_splits)
  show "if canceled_event (heap v self) then task_status (heap v' self) = CANCELED
           else task_status (heap v' self) \<in> {RUNNING, COMPLETED, FAILED}"
    using s[of self] by (auto split: outcome.splits)
  fix u assume "u \<noteq> self"
  with s[of u] show "task_status (heap v' u) = task_status (heap v u)" by simp
qed

theorem status_transitions_under_protocol_witness:
  "task_status (heap chain_world_A_done task_B) = PENDING
   \<and> fst (ready_tasks_next Suspended chain_world_A_done) = Yielded task_B
   \<and> task_status (heap (snd (snd (ready_tasks_next Suspended chain_world_A_done))) task_A)
       = task_status (heap chain_world_A_done task_A)
   \<and> task_status (heap chain_world_started task_A) = SCHEDULED
   \<and> spec_transition\<^sup>*\<^sup>* (task_status (heap chain_world_started task_A))
        (task_status (heap (snd (execute_task chain_world_started task_A (Returns (PyInt 1)))) task_A))
   \<and> task_status (heap (snd (execute_task chain_world_started task_A (Returns (PyInt 1)))) task_B)
       = task_status (heap chain_world_started task_B)"
proof -
  have y: "fst (ready_tasks_next Suspended chain_world_A_done) = Yielded task_B"
    "task_status (heap chain_world_A_done task_B) = PENDING"
    "task_A \<noteq> task_B"
    by code_simp+
  have s: "task_status (heap chain_world_started task_A) = SCHEDULED"
    "task_status (heap chain_world_started task_A) \<in> {PENDING, SCHEDULED}"
    "\<not> caught (slot_raises (on_task_completed (heap chain_world_started task_A)))"
    by code_simp+
  note n = status_transitions_under_protocol[where g = Suspended and w = chain_world_A_done
      and r = "fst (ready_tasks_next Suspended chain_world_A_done)"
      and g' = "fst (snd (ready_tasks_next Suspended chain_world_A_done))"
      and w' = "snd (snd (ready_tasks_next Suspended chain_world_A_done))"
      and v = chain_world_started and self = task_A and outcome = "Returns (PyInt 1)"
      and e = "fst (execute_task chain_world_started task_A (Returns (PyInt 1)))"
      and v' = "snd (execute_task chain_world_started task_A (Returns (PyInt 1)))"]
  from n y have 1: "task_status (heap (snd (snd (ready_tasks_next Suspended chain_world_A_done))) task_A)
       = task_status (heap chain_world_A_done task_A)"
    by (metis prod.collapse step.inject(1))
  from n s y(3) have 2: "spec_transition\<^sup>*\<^sup>* (task_status (heap chain_world_started task_A))
        (task_status (heap (snd (execute_task chain_world_started task_A (Returns (PyInt 1)))) task_A))"
    "task_status (heap (snd (execute_task chain_world_started task_A (Returns (PyInt 1)))) task_B)
       = task_status (heap chain_world_started task_B)"
    by (metis prod.collapse)+
  from y s 1 2 show ?thesis by simp
qed

text \<open>
  Claim C8 as stated fails: \<open>A\<close> is Completed after its execution; a further
  \<^verbatim>\<open>mark_as_scheduled\<close> makes it Scheduled, and a further \<^verbatim>\<open>execute_task\<close> whose work
  function raises makes it Failed.
\<close>

theorem terminal_status_left_counterexample:
  "task_status (heap chain_world_A_done task_A) = COMPLETED
   \<and> task_status (mark_as_scheduled (heap chain_world_A_done task_A)) = SCHEDULED
   \<and> task_status (heap (snd (execute_task chain_world_A_done task_A (Returns (PyInt 1)))) task_A)
       = COMPLETED
   \<and> task_status (heap (snd (execute_task chain_world_A_done task_A
         (Raises (Exception ''boom'')))) task_A) = FAILED"
  by code_simp

section \<open>Cascading cancellation\<close>







section \<open>Cycle detection\<close>

subsection \<open>Dictionaries by identifier\<close>

lemma dict_get_amap: "dict_get d k = amap d (task_id k)"
  by (induction d) (auto simp: amap_def task_eq_def)

lemma amap_dom: "dom (amap d) = set (keys d)"
  by (force simp: amap_def keys_def dom_map_of_conv_image_fst)

lemma amap_None_iff: "(amap d i = None) = (i \<notin> set (keys d))"
  using amap_dom[of d] by blast

lemma amap_dict_set: "amap (dict_set d k v) = (amap d)(task_id k \<mapsto> v)"
  by (induction d) (auto simp: amap_def task_eq_def)

lemma keys_dict_set:
  "keys (dict_set d k v) = (if task_id k \<in> set (keys d) then keys d else keys d @ [task_id k])"
  by (induction d) (auto simp: keys_def task_eq_def)

lemma defaultdict_get_fst: "fst (defaultdict_get d k) = lookup d (task_id k)"
  by (simp add: defaultdict_get_def lookup_def dict_get_amap split: option.splits)

lemma amap_append: "amap (d @ e) i = (case amap d i of None \<Rightarrow> amap e i | Some v \<Rightarrow> Some v)"
  by (simp add: amap_def map_add_def split: option.splits)

lemma lookup_append_empty: "lookup (d @ [(k, [])]) i = lookup d i"
  by (auto simp: lookup_def amap_append split: option.splits) (simp add: amap_def split: if_splits)

lemma defaultdict_get_snd_lookup: "lookup (snd (defaultdict_get d k)) i = lookup d i"
  by (simp add: defaultdict_get_def lookup_append_empty split: option.splits)

lemma defaultdict_get_snd_cases:
  "snd (defaultdict_get d k) = d \<or> snd (defaultdict_get d k) = d @ [(k, [])]"
  by (simp add: defaultdict_get_def split: option.splits)

subsection \<open>The inner loop\<close>

lemma relax_spec:
  assumes "distinct (map task_id ts)" "\<forall>t \<in> set ts. task_id t \<in> set (keys od)"
  shows "\<exists>od'. relax ts od q = Inr (od', q @ filter (\<lambda>t. amap od (task_id t) = Some 1) ts)
         \<and> keys od' = keys od
         \<and> (\<forall>i. amap od' i = (if i \<in> task_id ` set ts then map_option (\<lambda>n. n - 1) (amap od i)
                               else amap od i))"
  using assms
proof (induction ts arbitrary: od q)
  case Nil
  then show ?case by simp
next
  case (Cons t ts)
  from Cons.prems obtain n where n: "amap od (task_id t) = Some n"
    using amap_dom[of od] by fastforce
  let ?od1 = "dict_set od t (n - 1)"
  let ?q1 = "if n - 1 = 0 then q @ [t] else q"
  have k1: "keys ?od1 = keys od"
    using Cons.prems by (simp add: keys_dict_set)
  have a1: "amap ?od1 = (amap od)(task_id t \<mapsto> n - 1)"
    by (simp add: amap_dict_set)
  from Cons.prems have d: "distinct (map task_id ts)" and nt: "task_id t \<notin> task_id ` set ts"
    by auto
  from Cons.prems k1 have r: "\<forall>t' \<in> set ts. task_id t' \<in> set (keys ?od1)" by simp
  from Cons.IH[OF d r, of ?q1] obtain od' where
    rel: "relax ts ?od1 ?q1 = Inr (od', ?q1 @ filter (\<lambda>t. amap ?od1 (task_id t) = Some 1) ts)"
    and k: "keys od' = keys ?od1"
    and m: "\<forall>i. amap od' i = (if i \<in> task_id ` set ts then map_option (\<lambda>n. n - 1) (amap ?od1 i)
                               else amap ?od1 i)"
    by blast
  have f: "filter (\<lambda>t'. amap ?od1 (task_id t') = Some 1) ts
         = filter (\<lambda>t'. amap od (task_id t') = Some 1) ts"
  proof (intro filter_cong refl)
    fix t' assume "t' \<in> set ts"
    with nt have "task_id t' \<noteq> task_id t" by (metis image_eqI)
    then show "(amap ?od1 (task_id t') = Some 1) = (amap od (task_id t') = Some 1)"
      by (simp add: a1)
  qed
  have q: "?q1 @ filter (\<lambda>t'. amap od (task_id t') = Some 1) ts
         = q @ filter (\<lambda>t'. amap od (task_id t') = Some 1) (t # ts)"
    using n by auto
  have "relax (t # ts) od q = relax ts ?od1 ?q1"
    using n by (simp add: dict_get_amap)
  with rel f q have 1: "relax (t # ts) od q
      = Inr (od', q @ filter (\<lambda>t'. amap od (task_id t') = Some 1) (t # ts))"
    by simp
  have 2: "keys od' = keys od" using k k1 by simp
  have 3: "amap od' i = (if i \<in> task_id ` set (t # ts) then map_option (\<lambda>n. n - 1) (amap od i)
                               else amap od i)" for i
    using m[rule_format, of i] nt n by (auto simp: a1)
  from 1 2 3 show ?case by blast
qed

subsection \<open>The invariant of the loop\<close>

lemma finite_deps_of: "finite (deps_of D i)"
  by (simp add: deps_of_def split: option.splits)

lemma kinv_step:
  assumes g: "graph_ok D R" and st: "stuck D S" and inv: "kinv D R S od (d # q) n dd P"
  shows "\<exists>od' q'. relax (fst (defaultdict_get dd d)) od q = Inr (od', q')
           \<and> kinv D R S od' q' (n + 1) (snd (defaultdict_get dd d)) (insert (task_id d) P)"
proof -
  let ?N = "set (keys D)"
  let ?i0 = "task_id d"
  let ?ts = "lookup R ?i0"
  let ?P' = "insert ?i0 P"
  from inv have ko: "keys od = keys D"
    and b: "\<And>i. i \<in> ?N \<Longrightarrow> \<exists>m. amap od i = Some m \<and> int (card (deps_of D i - P)) \<le> m"
    and qN: "set (map task_id (d # q)) \<subseteq> ?N"
    and qd: "distinct (map task_id (d # q))"
    and qP: "set (map task_id (d # q)) \<inter> P = {}"
    and PN: "P \<subseteq> ?N"
    and z: "\<And>i. i \<in> set (map task_id (d # q)) \<union> P \<Longrightarrow> amap od i = Some 0"
    and n: "n = card P"
    and l: "\<And>i. lookup dd i = lookup R i"
    and PS: "P \<inter> S = {}"
    unfolding kinv_def by blast+
  from g have dD: "distinct (keys D)"
    and dts: "distinct (map task_id ?ts)"
    and tr: "\<And>t. t \<in> set ?ts \<Longrightarrow> task_id t \<in> ?N \<and> ?i0 \<in> deps_of D (task_id t)"
    unfolding graph_ok_def by blast+
  have fts: "fst (defaultdict_get dd d) = ?ts"
    by (simp add: defaultdict_get_fst l)
  have finP: "finite P" using PN by (rule finite_subset) simp
  have i0N: "?i0 \<in> ?N" using qN by simp
  have i0P: "?i0 \<notin> P" using qP by simp
  have i0q: "?i0 \<notin> set (map task_id q)" using qd by simp
  have reg: "\<forall>t \<in> set ?ts. task_id t \<in> set (keys od)" using tr ko by simp
  from relax_spec[OF dts reg, of q] obtain od' where
    rel: "relax ?ts od q = Inr (od', q @ filter (\<lambda>t. amap od (task_id t) = Some 1) ?ts)"
    and ko': "keys od' = keys od"
    and m': "\<And>i. amap od' i = (if i \<in> task_id ` set ?ts then map_option (\<lambda>n. n - 1) (amap od i)
                               else amap od i)"
    by blast
  let ?new = "filter (\<lambda>t. amap od (task_id t) = Some 1) ?ts"
  let ?q' = "q @ ?new"
  text \<open>a task about to be decremented still has the popped task among its open dependencies\<close>
  have pos: "1 \<le> card (deps_of D i - P)" if "i \<in> task_id ` set ?ts" for i
  proof -
    from that tr have "?i0 \<in> deps_of D i" by auto
    with i0P have "?i0 \<in> deps_of D i - P" by simp
    moreover have "finite (deps_of D i - P)" using finite_deps_of by simp
    ultimately show ?thesis by (metis One_nat_def Suc_leI card_gt_0_iff empty_iff)
  qed
  have tsN: "task_id ` set ?ts \<subseteq> ?N" using tr by auto
  have notz: "amap od i \<noteq> Some 0" if "i \<in> task_id ` set ?ts" for i
  proof
    assume 0: "amap od i = Some 0"
    from that tsN have "i \<in> ?N" by auto
    from b[OF this] 0 have "int (card (deps_of D i - P)) \<le> 0" by auto
    with pos[OF that] show False by simp
  qed
  have new_one: "amap od (task_id t) = Some 1 \<and> t \<in> set ?ts" if "t \<in> set ?new" for t
    using that by simp
  have A: "keys od' = keys D" using ko ko' by simp
  have B: "\<exists>m. amap od' i = Some m \<and> int (card (deps_of D i - ?P')) \<le> m" if iN: "i \<in> ?N" for i
  proof -
    from b[OF iN] obtain m where m: "amap od i = Some m" "int (card (deps_of D i - P)) \<le> m"
      by blast
    show ?thesis
    proof (cases "i \<in> task_id ` set ?ts")
      case True
      with tr have "?i0 \<in> deps_of D i" by auto
      with i0P have mem: "?i0 \<in> deps_of D i - P" by simp
      have "deps_of D i - ?P' = (deps_of D i - P) - {?i0}" by auto
      then have "card (deps_of D i - ?P') = card (deps_of D i - P) - 1"
        using mem by (simp add: card_Diff_singleton)
      with pos[OF True] m(2) have "int (card (deps_of D i - ?P')) \<le> m - 1" by linarith
      moreover from True m(1) have "amap od' i = Some (m - 1)" by (simp add: m')
      ultimately show ?thesis by blast
    next
      case False
      have "card (deps_of D i - ?P') \<le> card (deps_of D i - P)"
        by (intro card_mono) (auto simp: finite_deps_of)
      with m(2) have "int (card (deps_of D i - ?P')) \<le> m" by linarith
      moreover from False m(1) have "amap od' i = Some m" by (simp add: m')
      ultimately show ?thesis by blast
    qed
  qed
  have newN: "task_id ` set ?new \<subseteq> ?N" using tr by auto
  have C1: "set (map task_id ?q') \<subseteq> ?N" using qN newN by auto
  have new_not_old: "i \<notin> set (map task_id (d # q)) \<union> P" if "i \<in> task_id ` set ?new" for i
  proof
    assume "i \<in> set (map task_id (d # q)) \<union> P"
    from z[OF this] have "amap od i = Some 0" .
    moreover from that obtain t where "t \<in> set ?new" "i = task_id t" by blast
    then have "amap od i = Some 1" by simp
    ultimately show False by simp
  qed
  have C2: "distinct (map task_id ?q')"
  proof -
    have "distinct (map task_id q)" using qd by simp
    moreover have "distinct (map task_id ?new)" using dts by (rule distinct_map_filter)
    moreover have "set (map task_id q) \<inter> set (map task_id ?new) = {}"
      using new_not_old by auto
    ultimately show ?thesis by simp
  qed
  have C3: "set (map task_id ?q') \<inter> ?P' = {}"
  proof -
    have "set (map task_id q) \<inter> ?P' = {}" using qP i0q by auto
    moreover have "set (map task_id ?new) \<inter> ?P' = {}" using new_not_old by auto
    ultimately show ?thesis by auto
  qed
  have C4: "?P' \<subseteq> ?N" using PN i0N by simp
  have Dz: "amap od' i = Some 0" if "i \<in> set (map task_id ?q') \<union> ?P'" for i
  proof (cases "i \<in> task_id ` set ?new")
    case True
    then obtain t where t: "t \<in> set ?new" "i = task_id t" by blast
    then have "amap od i = Some 1" "i \<in> task_id ` set ?ts" by auto
    then show ?thesis by (simp add: m')
  next
    case False
    with that have old: "i \<in> set (map task_id (d # q)) \<union> P" by auto
    from z[OF old] have 0: "amap od i = Some 0" .
    with notz have "i \<notin> task_id ` set ?ts" by blast
    with 0 show ?thesis by (simp add: m')
  qed
  have E: "n + 1 = card ?P'" using n finP i0P by simp
  have F: "lookup (snd (defaultdict_get dd d)) i = lookup R i" for i
    by (simp add: defaultdict_get_snd_lookup l)
  have G: "?P' \<inter> S = {}"
  proof -
    have "?i0 \<notin> S"
    proof
      assume iS: "?i0 \<in> S"
      from z[of ?i0] have 0: "amap od ?i0 = Some 0" by simp
      from b[OF i0N] 0 have "card (deps_of D ?i0 - P) = 0" by auto
      then have sub: "deps_of D ?i0 \<subseteq> P" using finite_deps_of[of D ?i0] by auto
      from st iS obtain j where "j \<in> deps_of D ?i0" "j \<in> S \<or> j \<notin> ?N"
        unfolding stuck_def by blast
      with sub PS PN show False by blast
    qed
    with PS show ?thesis by simp
  qed
  have "kinv D R S od' ?q' (n + 1) (snd (defaultdict_get dd d)) ?P'"
    unfolding kinv_def using A B C1 C2 C3 C4 Dz E F G by blast
  with rel fts show ?thesis by auto
qed

lemma kahn_run:
  assumes "graph_ok D R" "stuck D S" "kinv D R S od q n dd P"
  shows "\<exists>n' dd'. kahn od q n dd = (Inr n', dd') \<and> n' + card S \<le> length D
            \<and> (\<forall>i. lookup dd' i = lookup R i)"
  using assms(3)
proof (induction od q n dd arbitrary: P rule: kahn.induct)
  case (1 out_degree processed_count dd)
  let ?N = "set (keys D)"
  from 1 have n: "processed_count = card P" and PN: "P \<subseteq> ?N" and PS: "P \<inter> S = {}"
    and l: "\<forall>i. lookup dd i = lookup R i"
    unfolding kinv_def by blast+
  from assms(2) have SN: "S \<subseteq> ?N" unfolding stuck_def by blast
  have "card P + card S = card (P \<union> S)"
    using PN SN PS by (metis List.finite_set card_Un_disjoint finite_subset)
  also have "\<dots> \<le> card ?N" using PN SN by (intro card_mono) auto
  also have "\<dots> \<le> length D" using card_length[of "keys D"] by (simp add: keys_def)
  finally show ?case using n l by simp
next
  case (2 out_degree task ready_queue processed_count dd)
  from kinv_step[OF assms(1,2) "2.prems"] obtain od' q' where
    rel: "relax (fst (defaultdict_get dd task)) out_degree ready_queue = Inr (od', q')"
    and inv': "kinv D R S od' q' (processed_count + 1) (snd (defaultdict_get dd task))
                 (insert (task_id task) P)"
    by blast
  from "2.IH"[OF prod.collapse rel refl inv']
  obtain n' dd' where
    "kahn od' q' (processed_count + 1) (snd (defaultdict_get dd task)) = (Inr n', dd')"
    "n' + card S \<le> length D" "\<forall>i. lookup dd' i = lookup R i"
    by blast
  with rel show ?case by (simp add: case_prod_unfold)
qed

lemma has_cycles_eq:
  "has_cycles s =
     (case kahn (out_degree0 (task_to_dependencies s)) (ready_queue0 (task_to_dependencies s)) 0
              (task_to_dependents s) of
        (Inl e, dd) \<Rightarrow> (Inl e, s\<lparr>task_to_dependents := dd\<rparr>)
      | (Inr processed_count, dd) \<Rightarrow>
          (Inr (processed_count \<noteq> length (task_to_dependencies s)),
           s\<lparr>task_to_dependents := dd\<rparr>))"
  by (simp add: has_cycles_def out_degree0_def ready_queue0_def Let_def)

lemma keys_out_degree0: "keys (out_degree0 D) = keys D"
  by (simp add: keys_def out_degree0_def case_prod_unfold)

lemma amap_out_degree0: "amap (out_degree0 D) i = map_option (\<lambda>deps. int (length deps)) (amap D i)"
  by (induction D) (auto simp: amap_def out_degree0_def)

lemma ready_queue0_sublist:
  "map task_id (ready_queue0 D) = map (\<lambda>(k, v). task_id k) (filter (\<lambda>(k, v). v = []) D)"
  by (induction D) (auto simp: ready_queue0_def out_degree0_def)

lemma kinv_initial:
  assumes dD: "distinct (keys D)"
    and st: "stuck D S"
  shows "kinv D R S (out_degree0 D) (ready_queue0 D) 0 R {}"
proof -
  have val: "amap D (task_id k) = Some v" if "(k, v) \<in> set D" for k v
  proof -
    have 1: "distinct (map fst (map (\<lambda>(k, v). (task_id k, v)) D))"
      using dD by (simp add: keys_def comp_def case_prod_unfold)
    have 2: "(task_id k, v) \<in> set (map (\<lambda>(k, v). (task_id k, v)) D)"
      using that by (metis (mono_tags, lifting) case_prod_conv image_eqI set_map)
    have "map_of (map (\<lambda>(k, v). (task_id k, v)) D) (task_id k) = Some v"
      using 1 2 by (rule map_of_is_SomeI)
    then show ?thesis by (simp add: amap_def)
  qed
  have B: "\<exists>m. amap (out_degree0 D) i = Some m \<and> int (card (deps_of D i - {})) \<le> m"
    if "i \<in> set (keys D)" for i
  proof -
    from that obtain deps where a: "amap D i = Some deps"
      using amap_dom[of D] by blast
    then have "card (deps_of D i) \<le> length deps"
      by (simp add: deps_of_def) (metis card_image_le card_length le_trans List.finite_set)
    with a show ?thesis by (simp add: amap_out_degree0)
  qed
  have qsub: "set (map task_id (ready_queue0 D)) \<subseteq> set (keys D)"
    unfolding ready_queue0_sublist keys_def by auto
  have qdist: "distinct (map task_id (ready_queue0 D))"
    unfolding ready_queue0_sublist using dD unfolding keys_def by (rule distinct_map_filter)
  have qz: "amap (out_degree0 D) i = Some 0" if "i \<in> set (map task_id (ready_queue0 D))" for i
  proof -
    from that obtain k where "(k, []) \<in> set D" "i = task_id k"
      unfolding ready_queue0_sublist by auto
    with val[of k "[]"] show ?thesis by (simp add: amap_out_degree0)
  qed
  show ?thesis
    unfolding kinv_def using B qsub qdist qz by (simp add: keys_out_degree0)
qed

lemma depends_onD:
  "depends_on D t d \<Longrightarrow> task_id t \<in> set (keys D) \<and> task_id d \<in> deps_of D (task_id t)"
  unfolding depends_on_def deps_of_def set_contains_def list_ex_iff task_eq_def
  using amap_dom[of D]
  by (auto simp: dict_get_amap split: option.splits) (metis image_eqI)

lemma lookup_cases: "lookup R i = [] \<or> (\<exists>d. (d, lookup R i) \<in> set R \<and> task_id d = i)"
proof (cases "amap R i")
  case None
  then show ?thesis by (simp add: lookup_def)
next
  case (Some ts)
  then have "(i, ts) \<in> set (map (\<lambda>(k, v). (task_id k, v)) R)"
    unfolding amap_def by (rule map_of_SomeD)
  then obtain d where "(d, ts) \<in> set R" "task_id d = i" by auto
  with Some show ?thesis by (auto simp: lookup_def)
qed

lemma sched_inv_graph_ok:
  assumes "sched_inv s"
  shows "graph_ok (task_to_dependencies s) (task_to_dependents s)"
proof -
  let ?D = "task_to_dependencies s" and ?R = "task_to_dependents s"
  from assms have dD: "distinct (keys ?D)"
    and ent: "\<And>d ts. (d, ts) \<in> set ?R \<Longrightarrow>
        distinct (map task_id ts) \<and> (\<forall>t \<in> set ts. depends_on ?D t d)"
    unfolding sched_inv_def list_all_iff by blast+
  have 1: "distinct (map task_id (lookup ?R i))" for i
    using lookup_cases[of ?R i] ent by auto
  have 2: "task_id t \<in> set (keys ?D) \<and> i \<in> deps_of ?D (task_id t)"
    if "t \<in> set (lookup ?R i)" for i t
  proof -
    from that lookup_cases[of ?R i] obtain d where "(d, lookup ?R i) \<in> set ?R" "task_id d = i"
      by auto
    with ent that have "depends_on ?D t d" by blast
    from depends_onD[OF this] \<open>task_id d = i\<close> show ?thesis by simp
  qed
  from dD 1 2 show ?thesis unfolding graph_ok_def by blast
qed

lemma chain_succ:
  "chain D (c @ [z]) \<Longrightarrow> x \<in> set c \<Longrightarrow> \<exists>y \<in> set c \<union> {z}. depends_on D x y"
proof (induction c)
  case Nil
  then show ?case by simp
next
  case (Cons a c)
  show ?case
  proof (cases c)
    case Nil
    with Cons.prems show ?thesis by simp
  next
    case (Cons b c')
    with Cons.prems(1) have ab: "depends_on D a b" and ch: "chain D (c @ [z])" by simp_all
    show ?thesis
    proof (cases "x = a")
      case True
      with ab Cons show ?thesis by auto
    next
      case False
      with Cons.prems(2) have "x \<in> set c" by simp
      from Cons.IH[OF ch this] show ?thesis by auto
    qed
  qed
qed

lemma is_cycle_stuck:
  assumes "is_cycle D c"
  shows "stuck D (task_id ` set c)" "task_id ` set c \<noteq> {}"
proof -
  from assms have ne: "c \<noteq> []" and ch: "chain D (c @ [hd c])" by (simp_all add: is_cycle_def)
  have "\<exists>y \<in> set c. depends_on D x y" if "x \<in> set c" for x
    using chain_succ[OF ch that] ne by auto
  then have "task_id x \<in> set (keys D) \<and> (\<exists>j \<in> deps_of D (task_id x). j \<in> task_id ` set c)"
    if "x \<in> set c" for x
    using that depends_onD by (metis image_eqI)
  then show "stuck D (task_id ` set c)" unfolding stuck_def by blast
  from ne show "task_id ` set c \<noteq> {}" by simp
qed

lemma has_cycles_result:
  assumes "sched_inv s" "stuck (task_to_dependencies s) S"
  shows "\<exists>n dd. kahn (out_degree0 (task_to_dependencies s)) (ready_queue0 (task_to_dependencies s))
                    0 (task_to_dependents s) = (Inr n, dd)
           \<and> n + card S \<le> length (task_to_dependencies s)
           \<and> has_cycles s = (Inr (n < length (task_to_dependencies s)), s\<lparr>task_to_dependents := dd\<rparr>)"
proof -
  let ?D = "task_to_dependencies s" and ?R = "task_to_dependents s"
  have g: "graph_ok ?D ?R" using assms(1) by (rule sched_inv_graph_ok)
  then have dD: "distinct (keys ?D)" by (simp add: graph_ok_def)
  have "kinv ?D ?R S (out_degree0 ?D) (ready_queue0 ?D) 0 ?R {}"
    using dD assms(2) by (rule kinv_initial)
  from kahn_run[OF g assms(2) this] obtain n dd where
    k: "kahn (out_degree0 ?D) (ready_queue0 ?D) 0 ?R = (Inr n, dd)"
    and n: "n + card S \<le> length ?D" by blast
  then have "(n \<noteq> length ?D) = (n < length ?D)" by auto
  with k have "has_cycles s = (Inr (n < length ?D), s\<lparr>task_to_dependents := dd\<rparr>)"
    by (simp add: has_cycles_eq)
  with k n show ?thesis by blast
qed

lemma stuck_empty: "stuck D {}"
  by (simp add: stuck_def)

lemma has_cycles_stuck:
  assumes "sched_inv s" "stuck (task_to_dependencies s) S" "S \<noteq> {}"
  shows "fst (has_cycles s) = Inr True"
proof -
  from has_cycles_result[OF assms(1,2)] obtain n dd where
    n: "n + card S \<le> length (task_to_dependencies s)"
    and h: "has_cycles s = (Inr (n < length (task_to_dependencies s)), s\<lparr>task_to_dependents := dd\<rparr>)"
    by blast
  from assms(2) have "finite S" unfolding stuck_def by (meson List.finite_set finite_subset)
  with assms(3) have "0 < card S" by (simp add: card_gt_0_iff)
  with n h show ?thesis by simp
qed

lemma ready_tasks_next_Created_cycle:
  assumes "fst (has_cycles (sched w)) = Inr True"
  shows "fst (ready_tasks_next Created w) = Raised SchedulingException"
    and "heap (snd (snd (ready_tasks_next Created w))) = heap w"
  using assms by (auto simp: ready_tasks_next_def split: prod.splits sum.splits bool.splits)

text \<open>
  Claim C3. In every scheduler state that \<^verbatim>\<open>schedule\<close> maintains, the loop of
  \<^verbatim>\<open>__has_cycles\<close> (in-degrees as dependency counts, a queue seeded with the tasks of
  count zero, each popped task counted and its dependents decremented and queued at
  zero) ends without error with a count \<open>n\<close> of processed tasks that is at most the
  number of registered tasks, and \<^verbatim>\<open>__has_cycles\<close> returns \<open>True\<close> exactly when \<open>n\<close> is less
  than that number. If the registered tasks contain a cycle \<open>c\<close>, then \<open>n\<close> is less, and
  the first advance of \<^verbatim>\<open>ready_tasks\<close> raises the scheduling error: it yields nothing and
  leaves every task as it was.
\<close>

theorem has_cycles_kahn:
  assumes "sched_inv (sched w)"
  shows "\<exists>n dd. kahn (out_degree0 (task_to_dependencies (sched w)))
                   (ready_queue0 (task_to_dependencies (sched w))) 0
                   (task_to_dependents (sched w)) = (Inr n, dd)
          \<and> n \<le> length (task_to_dependencies (sched w))
          \<and> has_cycles (sched w)
              = (Inr (n < length (task_to_dependencies (sched w))),
                 (sched w)\<lparr>task_to_dependents := dd\<rparr>)
          \<and> (is_cycle (task_to_dependencies (sched w)) c \<longrightarrow>
                n < length (task_to_dependencies (sched w))
              \<and> fst (ready_tasks_next Created w) = Raised SchedulingException
              \<and> heap (snd (snd (ready_tasks_next Created w))) = heap w)"
proof -
  let ?D = "task_to_dependencies (sched w)"
  from has_cycles_result[OF assms stuck_empty] obtain n dd where
    k: "kahn (out_degree0 ?D) (ready_queue0 ?D) 0 (task_to_dependents (sched w)) = (Inr n, dd)"
    and n: "n \<le> length ?D"
    and h: "has_cycles (sched w) = (Inr (n < length ?D), (sched w)\<lparr>task_to_dependents := dd\<rparr>)"
    by auto
  have "n < length ?D \<and> fst (ready_tasks_next Created w) = Raised SchedulingException
              \<and> heap (snd (snd (ready_tasks_next Created w))) = heap w"
    if "is_cycle ?D c"
  proof -
    from has_cycles_stuck[OF assms is_cycle_stuck[OF that]]
    have t: "fst (has_cycles (sched w)) = Inr True" .
    with h have "n < length ?D" by simp
    with ready_tasks_next_Created_cycle[OF t] show ?thesis by simp
  qed
  with k n h show ?thesis by blast
qed

theorem has_cycles_kahn_witness:
  "sched_inv (sched cycle_world)
   \<and> is_cycle (task_to_dependencies (sched cycle_world)) [loop_A, loop_B]
   \<and> fst (has_cycles (sched cycle_world)) = Inr True
   \<and> fst (ready_tasks_next Created cycle_world) = Raised SchedulingException
   \<and> heap (snd (snd (ready_tasks_next Created cycle_world))) = heap cycle_world
   \<and> sched_inv (sched chain_world)
   \<and> fst (has_cycles (sched chain_world)) = Inr False"
proof -
  have i: "sched_inv (sched cycle_world)" "sched_inv (sched chain_world)"
    by code_simp+
  have c: "is_cycle (task_to_dependencies (sched cycle_world)) [loop_A, loop_B]"
    by code_simp
  have f: "fst (has_cycles (sched chain_world)) = Inr False"
    by code_simp
  from has_cycles_kahn[OF i(1), of "[loop_A, loop_B]"] c
  have "fst (has_cycles (sched cycle_world)) = Inr True
    \<and> fst (ready_tasks_next Created cycle_world) = Raised SchedulingException
    \<and> heap (snd (snd (ready_tasks_next Created cycle_world))) = heap cycle_world"
    by auto
  with i c f show ?thesis by blast
qed

text \<open>
  Claim C10. If a registered task \<open>t\<close> has a recorded dependency \<open>d\<close> and no registered
  task has the identifier of \<open>d\<close>, then \<^verbatim>\<open>__has_cycles\<close> returns \<open>True\<close> and the first
  advance of \<^verbatim>\<open>ready_tasks\<close> raises the scheduling error: the count of \<open>t\<close> never reaches
  zero, so \<open>t\<close> is never processed. The witness is a graph without any cycle.
\<close>

theorem unregistered_dependency_reported_as_cycle:
  assumes "sched_inv (sched w)"
    and "(t, deps) \<in> set (task_to_dependencies (sched w))"
    and "d \<in> set deps"
    and "\<not> dict_contains (task_to_dependencies (sched w)) d"
  shows "fst (has_cycles (sched w)) = Inr True
       \<and> fst (ready_tasks_next Created w) = Raised SchedulingException"
proof -
  let ?D = "task_to_dependencies (sched w)"
  from assms(1) have dD: "distinct (keys ?D)" by (simp add: sched_inv_def)
  have 1: "distinct (map fst (map (\<lambda>(k, v). (task_id k, v)) ?D))"
    using dD by (simp add: keys_def comp_def case_prod_unfold)
  have 2: "(task_id t, deps) \<in> set (map (\<lambda>(k, v). (task_id k, v)) ?D)"
    using assms(2) by (metis (mono_tags, lifting) case_prod_conv image_eqI set_map)
  have a: "amap ?D (task_id t) = Some deps"
    unfolding amap_def using 1 2 by (rule map_of_is_SomeI)
  then have tN: "task_id t \<in> set (keys ?D)" using amap_dom[of ?D] by blast
  from a assms(3) have dd: "task_id d \<in> deps_of ?D (task_id t)"
    by (simp add: deps_of_def)
  from assms(4) have dN: "task_id d \<notin> set (keys ?D)"
    using amap_dom[of ?D] by (auto simp: dict_contains_def dict_get_amap)
  from tN dd dN have "stuck ?D {task_id t}" unfolding stuck_def by blast
  from has_cycles_stuck[OF assms(1) this]
  have t: "fst (has_cycles (sched w)) = Inr True" by simp
  with ready_tasks_next_Created_cycle(1)[OF t] show ?thesis by simp
qed

lemma orphan_deps: "task_to_dependencies (sched orphan_world) = [(task_B, [task_A])]"
  by code_simp

lemma orphan_depends_on:
  "depends_on [(task_B, [task_A])] x y \<Longrightarrow> task_id x = ''B'' \<and> task_id y = ''A''"
  by (auto simp: depends_on_def set_contains_def task_eq_def task_A_def task_B_def
      split: if_splits)

lemma orphan_acyclic: "\<not> is_cycle (task_to_dependencies (sched orphan_world)) c"
proof
  assume "is_cycle (task_to_dependencies (sched orphan_world)) c"
  then have ne: "c \<noteq> []" and ch: "chain [(task_B, [task_A])] (c @ [hd c])"
    by (simp_all add: is_cycle_def orphan_deps)
  from ne obtain x r where c: "c = x # r" by (cases c) auto
  show False
  proof (cases r)
    case Nil
    with c ch have "depends_on [(task_B, [task_A])] x x" by simp
    from orphan_depends_on[OF this] have "''B'' = ''A''" by metis
    then show False by simp
  next
    case (Cons y r')
    obtain z r'' where z: "r' @ [x] = z # r''" by (cases "r' @ [x]") auto
    from c Cons ch z have "depends_on [(task_B, [task_A])] x y" "depends_on [(task_B, [task_A])] y z"
      by simp_all
    from orphan_depends_on[OF this(1)] orphan_depends_on[OF this(2)] have "''B'' = ''A''"
      by metis
    then show False by simp
  qed
qed

theorem unregistered_dependency_reported_as_cycle_witness:
  "sched_inv (sched orphan_world)
   \<and> task_to_dependencies (sched orphan_world) = [(task_B, [task_A])]
   \<and> \<not> dict_contains (task_to_dependencies (sched orphan_world)) task_A
   \<and> (\<forall>c. \<not> is_cycle (task_to_dependencies (sched orphan_world)) c)
   \<and> fst (has_cycles (sched orphan_world)) = Inr True
   \<and> fst (ready_tasks_next Created orphan_world) = Raised SchedulingException"
proof -
  have i: "sched_inv (sched orphan_world)" by code_simp
  have m: "(task_B, [task_A]) \<in> set (task_to_dependencies (sched orphan_world))"
    "task_A \<in> set [task_A]"
    by (simp_all add: orphan_deps)
  have n: "\<not> dict_contains (task_to_dependencies (sched orphan_world)) task_A" by code_simp
  from unregistered_dependency_reported_as_cycle[OF i m n] i n orphan_deps orphan_acyclic
  show ?thesis by blast
qed

text \<open>
  Claim C5 (as amended). The cycle check runs once per generator, in its first advance:
  if \<^verbatim>\<open>__has_cycles\<close> returns \<open>True\<close> then (in particular if the registered tasks contain a
  cycle then) that advance raises the scheduling error. It is not run again when the
  generator is resumed: an advance of a suspended or woken generator is one iteration of
  the loop, raises nothing whatever the graph has become, and leaves the scheduler as it
  is. A cycle registered after the first advance is found only by a generator obtained
  from a new read of \<^verbatim>\<open>ready_tasks\<close>.
\<close>

theorem cycle_check_once_per_generator:
  "(fst (has_cycles (sched w)) = Inr True \<longrightarrow>
       fst (ready_tasks_next Created w) = Raised SchedulingException)
   \<and> (sched_inv (sched w) \<and> is_cycle (task_to_dependencies (sched w)) c \<longrightarrow>
       fst (ready_tasks_next Created w) = Raised SchedulingException)
   \<and> (g = Suspended \<or> g = Waiting \<longrightarrow>
         ready_tasks_next g w = ready_loop w
       \<and> (\<forall>e. fst (ready_tasks_next g w) \<noteq> Raised e)
       \<and> sched (snd (snd (ready_tasks_next g w))) = sched w)"
proof (intro conjI impI allI)
  assume "fst (has_cycles (sched w)) = Inr True"
  then show "fst (ready_tasks_next Created w) = Raised SchedulingException"
    by (rule ready_tasks_next_Created_cycle)
next
  assume a: "sched_inv (sched w) \<and> is_cycle (task_to_dependencies (sched w)) c"
  then have "fst (has_cycles (sched w)) = Inr True"
    using has_cycles_stuck is_cycle_stuck by blast
  then show "fst (ready_tasks_next Created w) = Raised SchedulingException"
    by (rule ready_tasks_next_Created_cycle)
next
  assume g: "g = Suspended \<or> g = Waiting"
  then show l: "ready_tasks_next g w = ready_loop w"
    by (auto simp: ready_tasks_next_def)
  show "fst (ready_tasks_next g w) \<noteq> Raised e" for e
    unfolding l by (simp add: ready_loop_def split: option.splits)
  show "sched (snd (snd (ready_tasks_next g w))) = sched w"
    unfolding l by (simp add: ready_loop_def split: option.splits)
qed

theorem cycle_check_once_per_generator_witness:
  "fst (ready_tasks_next Created cycle_world) = Raised SchedulingException
   \<and> fst (ready_tasks_next Created late_world_2) = Raised SchedulingException
   \<and> ready_tasks_next Suspended late_world_2 = ready_loop late_world_2
   \<and> fst (ready_tasks_next Suspended late_world_2) \<noteq> Raised SchedulingException
   \<and> sched (snd (snd (ready_tasks_next Suspended late_world_2))) = sched late_world_2"
proof -
  have h: "fst (has_cycles (sched late_world_2)) = Inr True" by code_simp
  have i: "sched_inv (sched cycle_world) \<and>
      is_cycle (task_to_dependencies (sched cycle_world)) [loop_A, loop_B]" by code_simp
  from cycle_check_once_per_generator[of cycle_world "[loop_A, loop_B]" Created] i
  have 1: "fst (ready_tasks_next Created cycle_world) = Raised SchedulingException" by blast
  from cycle_check_once_per_generator[of late_world_2 "[]" Suspended] h
  have 2: "fst (ready_tasks_next Created late_world_2) = Raised SchedulingException"
    "ready_tasks_next Suspended late_world_2 = ready_loop late_world_2"
    "fst (ready_tasks_next Suspended late_world_2) \<noteq> Raised SchedulingException"
    "sched (snd (snd (ready_tasks_next Suspended late_world_2))) = sched late_world_2"
    by blast+
  from 1 2 show ?thesis by blast
qed

text \<open>
  Claim C5 as stated fails: \<open>task_T\<close> is scheduled and yielded; the two tasks of a cycle
  are scheduled while the generator is suspended; the check would now report the cycle,
  but resuming the generator raises nothing: no task is ready and it blocks.
\<close>

theorem cycle_not_rechecked_counterexample:
  "fst (ready_tasks_next Created late_world_0) = Yielded task_T
   \<and> sched_inv (sched late_world_2)
   \<and> is_cycle (task_to_dependencies (sched late_world_2)) [loop_A, loop_B]
   \<and> fst (has_cycles (sched late_world_2)) = Inr True
   \<and> fst (ready_tasks_next Suspended late_world_2) = Blocked"
  by code_simp

section \<open>The scheduler's operations maintain its invariant\<close>

text \<open>
  \<open>sched_inv\<close> holds of a scheduler just constructed and is kept by every operation of the
  model, so it holds in every state the scheduler reaches.
\<close>

lemma set_add_ids: "task_id ` set (set_add s x) = insert (task_id x) (task_id ` set s)"
  unfolding set_add_def set_contains_def list_ex_iff task_eq_def
  by (auto simp: image_iff) metis

lemma set_add_distinct: "distinct (map task_id s) \<Longrightarrow> distinct (map task_id (set_add s x))"
  unfolding set_add_def set_contains_def list_ex_iff task_eq_def
  by (auto simp: image_iff)

lemma foldl_set_add:
  "distinct (map task_id s) \<Longrightarrow>
   distinct (map task_id (foldl set_add s xs))
   \<and> task_id ` set (foldl set_add s xs) = task_id ` set s \<union> task_id ` set xs"
proof (induction xs arbitrary: s)
  case Nil
  then show ?case by simp
next
  case (Cons x xs)
  from Cons.IH[OF set_add_distinct[OF Cons.prems, of x]] show ?case
    by (simp add: set_add_ids Un_commute insert_commute)
qed

lemma py_set_distinct: "distinct (map task_id (py_set xs))"
  using foldl_set_add[of "[]" xs] by (simp add: py_set_def)

lemma py_set_ids: "task_id ` set (py_set xs) = task_id ` set xs"
  using foldl_set_add[of "[]" xs] by (simp add: py_set_def)

lemma dict_set_entries:
  "(k', v') \<in> set (dict_set d k v) \<Longrightarrow>
   (k', v') \<in> set d
   \<or> (v' = v \<and> task_id k' = task_id k
       \<and> (case dict_get d k of None \<Rightarrow> k' = k | Some v0 \<Rightarrow> (k', v0) \<in> set d))"
  by (induction d) (auto simp: task_eq_def split: if_splits option.splits)

lemma dict_get_append_None:
  "dict_get d k = None \<Longrightarrow> dict_get (d @ [(k, v)]) k = Some v"
  by (induction d) (auto simp: task_eq_def split: if_splits)

lemma add_dependent_entries:
  assumes "(d, ts) \<in> set (add_dependent dd dep task)"
  shows "(d, ts) \<in> set dd \<or> ts = []
       \<or> (task_id d = task_id dep
           \<and> (\<exists>ts0. ((d, ts0) \<in> set dd \<or> ts0 = []) \<and> ts = set_add ts0 task))"
proof (cases "dict_get dd dep")
  case None
  with assms have "(d, ts) \<in> set (dict_set (dd @ [(dep, [])]) dep (set_add [] task))"
    by (simp add: add_dependent_def defaultdict_get_def)
  from dict_set_entries[OF this] show ?thesis
    by (auto simp: dict_get_append_None[OF None])
next
  case (Some v)
  with assms have "(d, ts) \<in> set (dict_set dd dep (set_add v task))"
    by (simp add: add_dependent_def defaultdict_get_def)
  from dict_set_entries[OF this] Some show ?thesis by auto
qed

lemma sched_inv_entries:
  "sched_inv s \<longleftrightarrow>
     distinct (keys (task_to_dependencies s))
   \<and> (\<forall>e \<in> set (task_to_dependents s). entry_ok (task_to_dependencies s) e)"
  by (auto simp: sched_inv_def entry_ok_def list_all_iff)

lemma entry_ok_empty: "entry_ok D (d, [])"
  by (simp add: entry_ok_def)

lemma depends_on_task_eq: "depends_on D t d \<Longrightarrow> task_id d' = task_id d \<Longrightarrow> depends_on D t d'"
  by (auto simp: depends_on_def set_contains_def list_ex_iff task_eq_def split: option.splits)

lemma entry_ok_set_add:
  assumes "entry_ok D (d, ts0)" "depends_on D task d"
  shows "entry_ok D (d, set_add ts0 task)"
proof -
  have "set (set_add ts0 task) \<subseteq> insert task (set ts0)"
    by (auto simp: set_add_def)
  with assms show ?thesis
    unfolding entry_ok_def by (auto simp: set_add_distinct)
qed

lemma add_dependent_ok:
  assumes "\<forall>e \<in> set dd. entry_ok D e" "depends_on D task dep"
  shows "\<forall>e \<in> set (add_dependent dd dep task). entry_ok D e"
proof
  fix e assume e: "e \<in> set (add_dependent dd dep task)"
  obtain d ts where de: "e = (d, ts)" by (cases e)
  from add_dependent_entries[OF e[unfolded de]]
  consider "(d, ts) \<in> set dd" | "ts = []"
    | ts0 where "task_id d = task_id dep" "(d, ts0) \<in> set dd \<or> ts0 = []" "ts = set_add ts0 task"
    by blast
  then show "entry_ok D e"
  proof cases
    case 1
    with assms(1) de show ?thesis by blast
  next
    case 2
    with de show ?thesis by (simp add: entry_ok_empty)
  next
    case 3
    from 3(2) assms(1) have "entry_ok D (d, ts0)" by (auto simp: entry_ok_empty)
    moreover from assms(2) 3(1) have "depends_on D task d" by (rule depends_on_task_eq)
    ultimately show ?thesis using 3(3) de by (simp add: entry_ok_set_add)
  qed
qed

lemma foldl_add_dependent_ok:
  assumes "\<forall>e \<in> set dd. entry_ok D e" "\<forall>dep \<in> set deps. depends_on D task dep"
  shows "\<forall>e \<in> set (foldl (\<lambda>dd dependency. add_dependent dd dependency task) dd deps).
           entry_ok D e"
  using assms
proof (induction deps arbitrary: dd)
  case Nil
  then show ?case by simp
next
  case (Cons dep deps)
  from Cons.prems have "\<forall>e \<in> set (add_dependent dd dep task). entry_ok D e"
    by (intro add_dependent_ok) simp_all
  from Cons.IH[OF this] Cons.prems(2) show ?case by simp
qed

lemma depends_on_dict_set_new:
  assumes "\<not> dict_contains D task" "depends_on D t d"
  shows "depends_on (dict_set D task v) t d"
proof -
  from assms(2) obtain deps where g: "amap D (task_id t) = Some deps" "set_contains deps d"
    by (auto simp: depends_on_def dict_get_amap split: option.splits)
  from assms(1) have "amap D (task_id task) = None"
    by (simp add: dict_contains_def dict_get_amap)
  with g(1) have "task_id t \<noteq> task_id task" by auto
  with g show ?thesis
    by (simp add: depends_on_def dict_get_amap amap_dict_set)
qed

lemma depends_on_dict_set_self:
  assumes "d \<in> set deps"
  shows "depends_on (dict_set D task (py_set deps)) task d"
proof -
  from assms have "task_id d \<in> task_id ` set (py_set deps)" by (simp add: py_set_ids)
  then have "set_contains (py_set deps) d"
    by (auto simp: set_contains_def list_ex_iff task_eq_def)
  then show ?thesis
    by (simp add: depends_on_def dict_get_amap amap_dict_set)
qed

lemma sched_inv_empty:
  "sched_inv \<lparr>task_to_dependencies = [], task_to_dependents = []\<rparr>"
  by (simp add: sched_inv_def keys_def)

lemma sched_inv_schedule:
  assumes "sched_inv (sched w)"
  shows "sched_inv (sched (snd (schedule w task)))"
proof (cases "dict_contains (task_to_dependencies (sched w)) task")
  case True
  with assms show ?thesis by (simp add: schedule_def)
next
  case False
  let ?D = "task_to_dependencies (sched w)" and ?R = "task_to_dependents (sched w)"
  let ?deps = "dependencies (heap w task)"
  let ?D' = "dict_set ?D task (py_set ?deps)"
  let ?R' = "foldl (\<lambda>dd dependency. add_dependent dd dependency task) ?R ?deps"
  from False have s: "sched (snd (schedule w task))
      = (sched w)\<lparr>task_to_dependencies := ?D', task_to_dependents := ?R'\<rparr>"
    by (simp add: schedule_def Let_def register_on_task_completed_def
        register_on_task_failed_def register_on_task_canceled_def)
  from assms have dD: "distinct (keys ?D)" and ok: "\<forall>e \<in> set ?R. entry_ok ?D e"
    by (simp_all add: sched_inv_entries)
  from False have "task_id task \<notin> set (keys ?D)"
    using amap_dom[of ?D] by (auto simp: dict_contains_def dict_get_amap)
  with dD have 1: "distinct (keys ?D')" by (simp add: keys_dict_set)
  have "\<forall>e \<in> set ?R. entry_ok ?D' e"
    using ok depends_on_dict_set_new[OF False] unfolding entry_ok_def by blast
  moreover have "\<forall>dep \<in> set ?deps. depends_on ?D' task dep"
    by (simp add: depends_on_dict_set_self)
  ultimately have 2: "\<forall>e \<in> set ?R'. entry_ok ?D' e"
    by (rule foldl_add_dependent_ok)
  from 1 2 show ?thesis unfolding s by (simp add: sched_inv_entries)
qed

lemma sched_inv_schedule_all:
  "sched_inv (sched w) \<Longrightarrow> sched_inv (sched (snd (schedule_all w tasks)))"
proof (induction tasks arbitrary: w)
  case Nil
  then show ?case by simp
next
  case (Cons t tasks)
  from sched_inv_schedule[OF Cons.prems, of t]
  have i: "sched_inv (sched (snd (schedule w t)))" .
  show ?case
  proof (cases "schedule w t")
    case (Pair e w')
    with i have i': "sched_inv (sched w')" by simp
    show ?thesis
    proof (cases e)
      case None
      with Pair Cons.IH[OF i'] show ?thesis by simp
    next
      case (Some x)
      with Pair i' show ?thesis by simp
    qed
  qed
qed

lemma sched_inv_Scheduler_init: "sched_inv (sched (snd (Scheduler_init w tasks)))"
  unfolding Scheduler_init_def by (intro sched_inv_schedule_all) (simp add: sched_inv_empty)

lemma defaultdict_get_entries:
  "e \<in> set (snd (defaultdict_get dd k)) \<Longrightarrow> e \<in> set dd \<or> snd e = []"
  using defaultdict_get_snd_cases[of dd k] by auto

lemma kahn_entries:
  "kahn od q n dd = (r, dd') \<Longrightarrow> e \<in> set dd' \<Longrightarrow> e \<in> set dd \<or> snd e = []"
proof (induction od q n dd rule: kahn.induct)
  case (1 out_degree processed_count dd)
  then show ?case by simp
next
  case (2 out_degree task ready_queue processed_count dd)
  let ?dd1 = "snd (defaultdict_get dd task)"
  show ?case
  proof (cases "relax (fst (defaultdict_get dd task)) out_degree ready_queue")
    case (Inl x)
    with "2.prems" have "dd' = ?dd1" by (simp add: case_prod_unfold)
    with "2.prems"(2) defaultdict_get_entries[of e dd task] show ?thesis by simp
  next
    case (Inr p)
    with "2.prems"(1) have k: "kahn (fst p) (snd p) (processed_count + 1) ?dd1 = (r, dd')"
      by (simp add: case_prod_unfold)
    from "2.IH"[OF prod.collapse Inr prod.collapse k "2.prems"(2)]
    have "e \<in> set ?dd1 \<or> snd e = []" .
    with defaultdict_get_entries[of e dd task] show ?thesis by blast
  qed
qed

lemma sched_inv_has_cycles:
  assumes "sched_inv s"
  shows "sched_inv (snd (has_cycles s))"
proof -
  obtain r dd where k: "kahn (out_degree0 (task_to_dependencies s))
      (ready_queue0 (task_to_dependencies s)) 0 (task_to_dependents s) = (r, dd)"
    by (cases "kahn (out_degree0 (task_to_dependencies s))
      (ready_queue0 (task_to_dependencies s)) 0 (task_to_dependents s)")
  then have s': "snd (has_cycles s) = s\<lparr>task_to_dependents := dd\<rparr>"
    by (simp add: has_cycles_eq split: sum.splits)
  have "entry_ok (task_to_dependencies s) e" if "e \<in> set dd" for e
    using kahn_entries[OF k that] assms
    by (cases e) (auto simp: sched_inv_entries entry_ok_empty)
  with assms show ?thesis unfolding s' by (simp add: sched_inv_entries)
qed

lemma sched_inv_ready_tasks_next:
  assumes "sched_inv (sched w)"
  shows "sched_inv (sched (snd (snd (ready_tasks_next g w))))"
proof -
  have l: "sched (snd (snd (ready_loop v))) = sched v" for v
    by (simp add: ready_loop_def split: option.splits)
  show ?thesis
  proof (cases g)
    case Created
    with sched_inv_has_cycles[OF assms] show ?thesis
      by (auto simp: ready_tasks_next_def l split: prod.splits sum.splits bool.splits)
  qed (use assms in \<open>simp_all add: ready_tasks_next_def l\<close>)
qed

lemma sched_inv_call_callback:
  assumes "sched_inv (sched w)"
  shows "sched_inv (sched (snd (call_callback f w task)))"
proof -
  have "sched_inv ((sched w)\<lparr>task_to_dependents := snd (defaultdict_get (task_to_dependents (sched w)) task)\<rparr>)"
    using assms defaultdict_get_entries[of _ "task_to_dependents (sched w)" task]
    by (auto simp: sched_inv_entries) (metis entry_ok_empty prod.collapse)
  then show ?thesis
    using assms
    by (cases f) (simp_all add: Scheduler_on_task_completed_def Scheduler_on_task_failed_def
        Scheduler_on_task_canceled_def case_prod_unfold)
qed

lemma sched_inv_fire:
  "sched_inv (sched w) \<Longrightarrow> sched_inv (sched (snd (fire slot c w self)))"
  using sched_inv_call_callback[of "record_call c w"]
  by (simp add: fire_def split: option.splits)

lemma sched_inv_except_clause:
  "sched_inv (sched w) \<Longrightarrow> sched_inv (sched (snd (except_clause w self x)))"
  using sched_inv_fire[of "set_status (set_result w self (PyExn x)) self FAILED"]
  by (simp add: except_clause_eq)

lemma sched_inv_execute_task:
  assumes "sched_inv (sched w)"
  shows "sched_inv (sched (snd (execute_task w self outcome)))"
proof (cases "canceled_event (heap w self)")
  case True
  with sched_inv_fire[of "set_status w self CANCELED"] assms show ?thesis
    by (simp add: execute_task_eq)
next
  case False
  show ?thesis
  proof (cases outcome)
    case (Raises x)
    with False sched_inv_except_clause[of "record_call (Work_function self) (set_status w self RUNNING)"]
      assms show ?thesis by (simp add: execute_task_eq)
  next
    case (Returns v)
    let ?w4 = "set_status (set_result (record_call (Work_function self)
                            (set_status w self RUNNING)) self v) self COMPLETED"
    from assms have 5: "sched_inv (sched (snd (fire (on_task_completed (heap w self))
        (On_completed self) ?w4 self)))"
      by (intro sched_inv_fire) simp
    from sched_inv_except_clause[OF 5] 5 Returns False show ?thesis
      by (simp add: execute_task_eq case_prod_unfold split: option.splits)
  qed
qed

end
